theory Spec2Isabelle
  imports Complex_Main "HOL-Library.Word"
begin

section \<open>Data model of \<open>spm_tokenizer.hpp\<close>\<close>

text \<open>
  Bytes of a \<open>std::string\<close> are \<open>char\<close> (8 bits), a string is a \<open>char list\<close>.
  \<open>llama_token\<close> and \<open>llama_vocab::id\<close> are \<open>int\<close>; \<open>size_t\<close> lengths and offsets are
  \<open>nat\<close>; \<open>uint8_t\<close> is \<open>8 word\<close>. A \<open>float\<close> score is a \<open>real\<close>: the comparisons the
  tokenizer makes are those of the reals on every float that is not a NaN.
\<close>

datatype llama_vocab_type = LLAMA_VOCAB_TYPE_SPM | LLAMA_VOCAB_TYPE_BPE

datatype llama_token_type =
    LLAMA_TOKEN_TYPE_UNDEFINED
  | LLAMA_TOKEN_TYPE_NORMAL
  | LLAMA_TOKEN_TYPE_UNKNOWN
  | LLAMA_TOKEN_TYPE_CONTROL
  | LLAMA_TOKEN_TYPE_USER_DEFINED
  | LLAMA_TOKEN_TYPE_UNUSED
  | LLAMA_TOKEN_TYPE_BYTE

text \<open>\<open>llama_vocab::token_data\<close>; the fields \<open>text\<close>, \<open>score\<close>, \<open>type\<close> carry a prefix.\<close>

record token_data =
  tok_text :: string
  tok_score :: real
  tok_type :: llama_token_type

text \<open>\<open>struct llama_vocab\<close>; its field \<open>type\<close> is \<open>vtype\<close>.\<close>

record llama_vocab =
  vtype :: llama_vocab_type
  token_to_id :: "string \<rightharpoonup> int"
  id_to_token :: "token_data list"
  special_bos_id :: int
  special_eos_id :: int
  special_unk_id :: int
  special_sep_id :: int
  special_pad_id :: int
  linefeed_id :: int

text \<open>
  The ways a call can end without a value: a failed \<open>GGML_ASSERT\<close>, a
  \<open>std::out_of_range\<close> thrown by \<open>at\<close> or \<open>substr\<close>, and an access the language leaves
  undefined (\<open>operator[]\<close> outside a vector, a read outside the text buffer).
\<close>

datatype error = AssertFailed | OutOfRange | UndefinedBehaviour

text \<open>
  Modelled from the spec: the macro \<open>GGML_ASSERT\<close> is declared outside the two source
  files. The spec calls its failure a fatal precondition failure that rejects the call.
\<close>

definition GGML_ASSERT :: "bool \<Rightarrow> error + unit" where
  "GGML_ASSERT c = (if c then Inr () else Inl AssertFailed)"

section \<open>Helpers\<close>

definition utf8_len :: "char \<Rightarrow> nat" where
  "utf8_len src =
     (let lookup = [1, 1, 1, 1, 1, 1, 1, 1, 1, 1, 1, 1, 2, 2, 3, 4];
          highbits = drop_bit 4 (of_char src :: 8 word)
      in lookup ! unat highbits)"

text \<open>\<open>std::string::substr(pos, count)\<close>: throws when \<open>pos\<close> is beyond the size.\<close>

definition substr :: "string \<Rightarrow> nat \<Rightarrow> nat \<Rightarrow> error + string" where
  "substr s pos cnt = (if length s < pos then Inl OutOfRange else Inr (take cnt (drop pos s)))"

text \<open>\<open>std::string::find(search, pos)\<close>: the lowest index from \<open>pos\<close> on where \<open>search\<close>
  occurs, \<open>None\<close> for \<open>npos\<close>.\<close>

function find_str :: "string \<Rightarrow> string \<Rightarrow> nat \<Rightarrow> nat option" where
  "find_str s search pos =
     (if length s < pos + length search then None
      else if take (length search) (drop pos s) = search then Some pos
      else find_str s search (pos + 1))"
  by pat_completeness auto
termination
proof (relation "measure (\<lambda>(s, search, pos). length s - pos)")
  show "wf (measure (\<lambda>(s, search, pos). length s - pos))" by simp
next
  fix s search :: string and pos :: nat
  assume a: "\<not> length s < pos + length search"
    and b: "take (length search) (drop pos s) \<noteq> search"
  have "pos < length s"
  proof (rule ccontr)
    assume "\<not> pos < length s"
    with a have "length search = 0" by arith
    with b show False by simp
  qed
  then show "((s, search, pos + 1), s, search, pos) \<in> measure (\<lambda>(s, search, pos). length s - pos)"
    by simp
qed

declare find_str.simps [simp del]

text \<open>
  The loop of \<open>replace_all\<close>, with \<open>pos\<close> and \<open>result\<close> as its state. With an empty
  \<open>search\<close> the source never leaves the loop, so the result is an option.
\<close>

partial_function (option) replace_all_loop ::
  "string \<Rightarrow> string \<Rightarrow> string \<Rightarrow> nat \<Rightarrow> string \<Rightarrow> (error + string) option" where
  "replace_all_loop s search replace pos result =
     (case find_str s search pos of
        None \<Rightarrow>
          (case substr s pos (length s - pos) of
             Inl e \<Rightarrow> Some (Inl e)
           | Inr t \<Rightarrow> Some (Inr (result @ t)))
      | Some new_pos \<Rightarrow>
          (case substr s pos (new_pos - pos) of
             Inl e \<Rightarrow> Some (Inl e)
           | Inr t \<Rightarrow>
               replace_all_loop s search replace (new_pos + length search) (result @ t @ replace)))"

declare replace_all_loop.simps [code]

definition replace_all :: "string \<Rightarrow> string \<Rightarrow> string \<Rightarrow> (error + string) option" where
  "replace_all s search replace = replace_all_loop s search replace 0 []"

section \<open>Token classification and byte tokens\<close>

text \<open>\<open>vocab.id_to_token[id]\<close>: \<open>operator[]\<close> checks nothing.\<close>

definition id_to_token_at :: "llama_vocab \<Rightarrow> int \<Rightarrow> error + token_data" where
  "id_to_token_at vocab i =
     (if 0 \<le> i \<and> i < int (length (id_to_token vocab))
      then Inr (id_to_token vocab ! nat i) else Inl UndefinedBehaviour)"

definition llama_vocab_get_type :: "llama_vocab \<Rightarrow> llama_vocab_type" where
  "llama_vocab_get_type vocab = vtype vocab"

definition llama_is_normal_token :: "llama_vocab \<Rightarrow> int \<Rightarrow> error + bool" where
  "llama_is_normal_token vocab i =
     (case id_to_token_at vocab i of Inl e \<Rightarrow> Inl e
      | Inr td \<Rightarrow> Inr (tok_type td = LLAMA_TOKEN_TYPE_NORMAL))"

definition llama_is_unknown_token :: "llama_vocab \<Rightarrow> int \<Rightarrow> error + bool" where
  "llama_is_unknown_token vocab i =
     (case id_to_token_at vocab i of Inl e \<Rightarrow> Inl e
      | Inr td \<Rightarrow> Inr (tok_type td = LLAMA_TOKEN_TYPE_UNKNOWN))"

definition llama_is_control_token :: "llama_vocab \<Rightarrow> int \<Rightarrow> error + bool" where
  "llama_is_control_token vocab i =
     (case id_to_token_at vocab i of Inl e \<Rightarrow> Inl e
      | Inr td \<Rightarrow> Inr (tok_type td = LLAMA_TOKEN_TYPE_CONTROL))"

definition llama_is_byte_token :: "llama_vocab \<Rightarrow> int \<Rightarrow> error + bool" where
  "llama_is_byte_token vocab i =
     (case id_to_token_at vocab i of Inl e \<Rightarrow> Inl e
      | Inr td \<Rightarrow> Inr (tok_type td = LLAMA_TOKEN_TYPE_BYTE))"

text \<open>
  \<open>strtol(buf, NULL, 16)\<close> of the C library: white space, an optional sign, an optional
  \<open>0x\<close> or \<open>0X\<close> before a hexadecimal digit, then the longest run of hexadecimal digits;
  0 when there is none. The source passes at most two characters, so the clamp at
  \<open>LONG_MAX\<close> is never reached and is left out.
\<close>

definition isspace :: "char \<Rightarrow> bool" where
  "isspace c = (c = CHR 0x20 \<or> c = CHR 0x09 \<or> c = CHR 0x0A \<or> c = CHR 0x0B \<or> c = CHR 0x0C \<or> c = CHR 0x0D)"

definition hex_digit_val :: "char \<Rightarrow> int option" where
  "hex_digit_val c =
     (let k = (of_char c :: nat) in
      if 48 \<le> k \<and> k \<le> 57 then Some (int k - 48)
      else if 65 \<le> k \<and> k \<le> 70 then Some (int k - 55)
      else if 97 \<le> k \<and> k \<le> 102 then Some (int k - 87)
      else None)"

fun strtol_digits :: "int \<Rightarrow> string \<Rightarrow> int" where
  "strtol_digits acc [] = acc"
| "strtol_digits acc (c # cs) =
     (case hex_digit_val c of None \<Rightarrow> acc | Some d \<Rightarrow> strtol_digits (16 * acc + d) cs)"

definition strtol_prefix :: "string \<Rightarrow> string" where
  "strtol_prefix s =
     (case s of
        c0 # cx # c # cs \<Rightarrow>
          (if c0 = CHR ''0'' \<and> (cx = CHR ''x'' \<or> cx = CHR ''X'') \<and> hex_digit_val c \<noteq> None
           then c # cs else s)
      | _ \<Rightarrow> s)"

definition strtol16 :: "string \<Rightarrow> int" where
  "strtol16 buf =
     (let s = dropWhile isspace buf in
      case s of
        [] \<Rightarrow> 0
      | c # cs \<Rightarrow>
          (if c = CHR ''-'' then - strtol_digits 0 (strtol_prefix cs)
           else if c = CHR ''+'' then strtol_digits 0 (strtol_prefix cs)
           else strtol_digits 0 (strtol_prefix s)))"

definition llama_token_to_byte :: "llama_vocab \<Rightarrow> int \<Rightarrow> error + 8 word" where
  "llama_token_to_byte vocab i =
     (case llama_is_byte_token vocab i of Inl e \<Rightarrow> Inl e
      | Inr b \<Rightarrow>
         (case GGML_ASSERT b of Inl e \<Rightarrow> Inl e
          | Inr _ \<Rightarrow>
             (if 0 \<le> i \<and> i < int (length (id_to_token vocab))
              then (case substr (tok_text (id_to_token vocab ! nat i)) 3 2 of
                      Inl e \<Rightarrow> Inl e
                    | Inr buf \<Rightarrow> Inr (word_of_int (strtol16 buf)))
              else Inl OutOfRange)))"

text \<open>\<open>snprintf(buf, sizeof(buf), "<0x%02X>", ch)\<close>: two upper-case digits, zero padded.\<close>

definition hex_upper :: "nat \<Rightarrow> char" where
  "hex_upper d = ''0123456789ABCDEF'' ! d"

definition snprintf_byte :: "8 word \<Rightarrow> string" where
  "snprintf_byte ch = ''<0x'' @ [hex_upper (unat ch div 16), hex_upper (unat ch mod 16)] @ ''>''"

definition llama_byte_to_token :: "llama_vocab \<Rightarrow> 8 word \<Rightarrow> error + int" where
  "llama_byte_to_token vocab ch =
     (let buf = snprintf_byte ch; result = int (length buf) in
      case GGML_ASSERT (0 \<le> result \<and> result < 7) of Inl e \<Rightarrow> Inl e
      | Inr _ \<Rightarrow> (case token_to_id vocab buf of None \<Rightarrow> Inl OutOfRange | Some t \<Rightarrow> Inr t))"

section \<open>White space\<close>

definition ws_marker :: string where
  "ws_marker = [CHR 0xE2, CHR 0x96, CHR 0x81]"

definition llama_escape_whitespace :: "string \<Rightarrow> (error + string) option" where
  "llama_escape_whitespace text = replace_all text '' '' ws_marker"

definition llama_unescape_whitespace :: "string \<Rightarrow> (error + string) option" where
  "llama_unescape_whitespace word = replace_all word ws_marker '' ''"

text \<open>The loop of \<open>get_llama_escape_whitespac\<close>, with \<open>offs\<close> and \<open>result\<close> as its state.\<close>

function escape_loop :: "string \<Rightarrow> nat \<Rightarrow> string \<Rightarrow> string" where
  "escape_loop text offs result =
     (if offs < length text
      then (if text ! offs = CHR '' ''
            then escape_loop text (offs + 1) (result @ ws_marker)
            else escape_loop text (offs + 1) (result @ [text ! offs]))
      else result)"
  by pat_completeness auto
termination
  by (relation "measure (\<lambda>(text, offs, result). length text - offs)") auto

declare escape_loop.simps [simp del]

definition get_llama_escape_whitespac :: "string \<Rightarrow> string" where
  "get_llama_escape_whitespac text = escape_loop text 0 ws_marker"

section \<open>The SPM tokenizer\<close>

text \<open>
  \<open>struct llm_symbol\<close>. The pointer \<open>text\<close> into the tokenized string is the offset
  \<open>sym_text\<close> from its first byte; \<open>prev\<close>, \<open>next\<close> and \<open>n\<close> carry the prefix \<open>sym_\<close>.
\<close>

record llm_symbol =
  sym_prev :: int
  sym_next :: int
  sym_text :: nat
  sym_n :: nat

record llm_bigram_spm =
  bg_left :: int
  bg_right :: int
  bg_score :: real
  bg_size :: nat

definition comparator :: "llm_bigram_spm \<Rightarrow> llm_bigram_spm \<Rightarrow> bool" where
  "comparator l r =
     (bg_score l < bg_score r \<or> (bg_score l = bg_score r \<and> bg_left l > bg_left r))"

text \<open>
  \<open>std::priority_queue\<close> with \<open>comparator\<close> as its order: \<open>top\<close> is an element that
  \<open>comparator\<close> puts below no other one. The queue is the list of its elements, oldest
  first; among elements that \<open>comparator\<close> does not tell apart the library's heap
  decides, and \<open>pq_top\<close> takes the oldest.
\<close>

fun pq_best :: "llm_bigram_spm \<Rightarrow> llm_bigram_spm list \<Rightarrow> llm_bigram_spm" where
  "pq_best b [] = b"
| "pq_best b (x # xs) = pq_best (if comparator b x then x else b) xs"

definition pq_top :: "llm_bigram_spm list \<Rightarrow> llm_bigram_spm" where
  "pq_top q = pq_best (hd q) (tl q)"

definition pq_pop :: "llm_bigram_spm list \<Rightarrow> llm_bigram_spm list" where
  "pq_pop q = remove1 (pq_top q) q"

definition pq_push :: "llm_bigram_spm \<Rightarrow> llm_bigram_spm list \<Rightarrow> llm_bigram_spm list" where
  "pq_push b q = q @ [b]"

text \<open>
  What every heap guarantees of the candidate that \<open>top\<close> returns and \<open>pop\<close> removes:
  it is in the queue and \<open>comparator\<close> puts it below no element of the queue.
\<close>

definition is_top :: "llm_bigram_spm list \<Rightarrow> llm_bigram_spm \<Rightarrow> bool" where
  "is_top q b = (b \<in> set q \<and> list_all (\<lambda>c. \<not> comparator b c) q)"

text \<open>The members of \<open>struct llm_tokenizer_spm\<close> that change; \<open>vocab\<close> is a parameter.\<close>

record llm_tokenizer_spm =
  symbols :: "llm_symbol list"
  work_queue :: "llm_bigram_spm list"
  rev_merge :: "string \<rightharpoonup> int \<times> int"

text \<open>\<open>symbols[i]\<close> with an \<open>int\<close> index.\<close>

definition symbol_at :: "llm_tokenizer_spm \<Rightarrow> int \<Rightarrow> error + llm_symbol" where
  "symbol_at st i =
     (if 0 \<le> i \<and> i < int (length (symbols st))
      then Inr (symbols st ! nat i) else Inl UndefinedBehaviour)"

text \<open>
  \<open>std::string(ptr, len)\<close> for a pointer \<open>offs\<close> bytes into \<open>text.c_str()\<close>: the buffer
  holds the text and one terminating zero byte.
\<close>

definition read_bytes :: "string \<Rightarrow> nat \<Rightarrow> nat \<Rightarrow> error + string" where
  "read_bytes str offs len =
     (if offs + len \<le> length str + 1
      then Inr (take len (drop offs (str @ [CHR 0x00]))) else Inl UndefinedBehaviour)"

definition try_add_bigram ::
  "llama_vocab \<Rightarrow> string \<Rightarrow> llm_tokenizer_spm \<Rightarrow> int \<Rightarrow> int \<Rightarrow> error + llm_tokenizer_spm" where
  "try_add_bigram vocab str st left right =
     (if left = -1 \<or> right = -1 then Inr st
      else
        case symbol_at st left of Inl e \<Rightarrow> Inl e | Inr ls \<Rightarrow>
        case symbol_at st right of Inl e \<Rightarrow> Inl e | Inr rs \<Rightarrow>
        case read_bytes str (sym_text ls) (sym_n ls + sym_n rs) of Inl e \<Rightarrow> Inl e | Inr text \<Rightarrow>
        case token_to_id vocab text of None \<Rightarrow> Inr st | Some tok \<Rightarrow>
          if tok < 0 \<or> int (length (id_to_token vocab)) \<le> tok then Inr st
          else
            let tok_data = id_to_token vocab ! nat tok;
                bigram = \<lparr>bg_left = left, bg_right = right,
                          bg_score = tok_score tok_data, bg_size = length text\<rparr>
            in Inr (st\<lparr>work_queue := pq_push bigram (work_queue st),
                        rev_merge := (rev_merge st)(text \<mapsto> (left, right))\<rparr>))"

lemma utf8_len_pos: "0 < utf8_len c"
proof -
  define k where "k = unat (drop_bit 4 (of_char c :: 8 word))"
  have "unat (of_char c :: 8 word) < 256"
    using unsigned_less [of "of_char c :: 8 word", where ?'a = nat] by simp
  then have "k < 16"
    by (simp add: k_def drop_bit_eq_div unat_div)
  then have "0 < [1, 1, 1, 1, 1, 1, 1, 1, 1, 1, 1, 1, 2, 2, 3, 4 :: nat] ! k"
    by (auto simp: numeral_eq_Suc less_Suc_eq)
  then show ?thesis
    by (simp add: utf8_len_def k_def)
qed

text \<open>The first loop of \<open>tokenize\<close>: one symbol for each UTF-8 character.\<close>

function split_loop :: "string \<Rightarrow> int \<Rightarrow> nat \<Rightarrow> llm_symbol list \<Rightarrow> error + llm_symbol list" where
  "split_loop text index offs syms =
     (if offs < length text
      then
        (let len = utf8_len (text ! offs) in
         case GGML_ASSERT (offs + len \<le> length text) of Inl e \<Rightarrow> Inl e
         | Inr _ \<Rightarrow>
            split_loop text (index + 1) (offs + len)
              (syms @ [\<lparr>sym_prev = index - 1,
                         sym_next = (if offs + len = length text then -1 else index + 1),
                         sym_text = offs, sym_n = len\<rparr>]))
      else Inr syms)"
  by pat_completeness auto
termination
  apply (relation "measure (\<lambda>(text, index, offs, syms). length text - offs)")
   apply simp
  subgoal for t index offs syms
    using utf8_len_pos [of "t ! offs"] by simp
  done

declare split_loop.simps [simp del]

lemma try_add_bigram_symbols:
  "try_add_bigram vocab str st left right = Inr st' \<Longrightarrow> symbols st' = symbols st"
  by (auto simp: try_add_bigram_def Let_def split: if_splits sum.splits option.splits)

text \<open>The second loop of \<open>tokenize\<close>: the candidates of all neighbours.\<close>

function seed_loop ::
  "llama_vocab \<Rightarrow> string \<Rightarrow> llm_tokenizer_spm \<Rightarrow> nat \<Rightarrow> error + llm_tokenizer_spm" where
  "seed_loop vocab str st i =
     (if i < length (symbols st)
      then (case try_add_bigram vocab str st (int i - 1) (int i) of Inl e \<Rightarrow> Inl e
            | Inr st' \<Rightarrow> seed_loop vocab str st' (i + 1))
      else Inr st)"
  by pat_completeness auto
termination
  by (relation "measure (\<lambda>(vocab, str, st, i). length (symbols st) - i)")
     (auto dest: try_add_bigram_symbols)

declare seed_loop.simps [simp del]

text \<open>
  The body of the third loop after \<open>work_queue.pop()\<close>: \<open>left_sym\<close> and \<open>right_sym\<close>
  are references into \<open>symbols\<close>, so the writes are made one after the other on the table.
\<close>

definition merge_bigram ::
  "llama_vocab \<Rightarrow> string \<Rightarrow> llm_tokenizer_spm \<Rightarrow> llm_bigram_spm \<Rightarrow> error + llm_tokenizer_spm" where
  "merge_bigram vocab str st bigram =
     (if \<not> (0 \<le> bg_left bigram \<and> bg_left bigram < int (length (symbols st)))
         \<or> \<not> (0 \<le> bg_right bigram \<and> bg_right bigram < int (length (symbols st)))
      then Inl UndefinedBehaviour
      else
        let l = nat (bg_left bigram); r = nat (bg_right bigram); s0 = symbols st in
        if sym_n (s0 ! l) = 0 \<or> sym_n (s0 ! r) = 0
           \<or> sym_n (s0 ! l) + sym_n (s0 ! r) \<noteq> bg_size bigram
        then Inr st
        else
          let s1 = s0[l := (s0 ! l)\<lparr>sym_n := sym_n (s0 ! l) + sym_n (s0 ! r)\<rparr>];
              s2 = s1[r := (s1 ! r)\<lparr>sym_n := 0\<rparr>];
              s3 = s2[l := (s2 ! l)\<lparr>sym_next := sym_next (s2 ! r)\<rparr>];
              nx = sym_next (s3 ! r)
          in
            if 0 \<le> nx \<and> \<not> nx < int (length s3) then Inl UndefinedBehaviour
            else
              let s4 = (if 0 \<le> nx
                        then s3[nat nx := (s3 ! nat nx)\<lparr>sym_prev := bg_left bigram\<rparr>]
                        else s3);
                  st1 = st\<lparr>symbols := s4\<rparr>
              in
                case try_add_bigram vocab str st1 (sym_prev (s4 ! l)) (bg_left bigram) of
                  Inl e \<Rightarrow> Inl e
                | Inr st2 \<Rightarrow>
                    try_add_bigram vocab str st2 (bg_left bigram) (sym_next (symbols st2 ! l)))"

definition merge_step ::
  "llama_vocab \<Rightarrow> string \<Rightarrow> llm_tokenizer_spm \<Rightarrow> error + llm_tokenizer_spm" where
  "merge_step vocab str st =
     (let bigram = pq_top (work_queue st)
      in merge_bigram vocab str (st\<lparr>work_queue := pq_pop (work_queue st)\<rparr>) bigram)"

text \<open>The number of symbols with \<open>n > 0\<close>; the third loop ends because each merge lowers it.\<close>

definition live_count :: "llm_symbol list \<Rightarrow> nat" where
  "live_count syms = length (filter (\<lambda>s. 0 < sym_n s) syms)"

lemma filter_update_count:
  "i < length xs \<Longrightarrow>
   length (filter P (xs[i := y])) + (if P (xs ! i) then 1 else 0)
     = length (filter P xs) + (if P y then 1 else 0)"
proof (induction xs arbitrary: i)
  case Nil
  then show ?case by simp
next
  case (Cons x xs)
  then show ?case by (cases i) auto
qed

lemma live_count_update:
  "i < length xs \<Longrightarrow>
   live_count (xs[i := y]) + (if 0 < sym_n (xs ! i) then 1 else 0)
     = live_count xs + (if 0 < sym_n y then 1 else 0)"
  unfolding live_count_def by (rule filter_update_count)

lemma live_count_update_same:
  "i < length xs \<Longrightarrow> (0 < sym_n y) = (0 < sym_n (xs ! i)) \<Longrightarrow>
   live_count (xs[i := y]) = live_count xs"
  using live_count_update [of i xs y] by (simp split: if_splits)

lemma live_count_update_kill:
  "i < length xs \<Longrightarrow> 0 < sym_n (xs ! i) \<Longrightarrow> sym_n y = 0 \<Longrightarrow>
   Suc (live_count (xs[i := y])) = live_count xs"
  using live_count_update [of i xs y] by simp

lemma try_add_bigram_queue:
  "try_add_bigram vocab str st left right = Inr st' \<Longrightarrow>
   length (work_queue st') \<le> Suc (length (work_queue st))"
  by (auto simp: try_add_bigram_def pq_push_def Let_def split: if_splits sum.splits option.splits)

lemma pq_best_in: "pq_best b xs \<in> set (b # xs)"
  by (induction xs arbitrary: b) (auto split: if_splits)

lemma pq_top_in: "q \<noteq> [] \<Longrightarrow> pq_top q \<in> set q"
  using pq_best_in [of "hd q" "tl q"] by (cases q) (simp_all add: pq_top_def)

lemma length_pq_pop:
  assumes "q \<noteq> []"
  shows "Suc (length (pq_pop q)) = length q"
proof -
  have "pq_top q \<in> set q" using assms by (rule pq_top_in)
  moreover have "0 < length q" using assms by simp
  ultimately show ?thesis by (simp add: pq_pop_def length_remove1)
qed

lemma merge_bigram_measure:
  assumes "merge_bigram vocab str st bigram = Inr st'"
  shows "2 * live_count (symbols st') + length (work_queue st')
           \<le> 2 * live_count (symbols st) + length (work_queue st)"
proof -
  let ?l = "nat (bg_left bigram)" and ?r = "nat (bg_right bigram)"
  let ?s0 = "symbols st"
  from assms have rng: "?l < length ?s0" "?r < length ?s0"
    by (auto simp: merge_bigram_def split: if_splits)
  show ?thesis
  proof (cases "sym_n (?s0 ! ?l) = 0 \<or> sym_n (?s0 ! ?r) = 0
                 \<or> sym_n (?s0 ! ?l) + sym_n (?s0 ! ?r) \<noteq> bg_size bigram")
    case True
    with assms rng have "st' = st"
      by (auto simp: merge_bigram_def Let_def split: if_splits)
    then show ?thesis by simp
  next
    case False
    define s1 where "s1 = ?s0[?l := (?s0 ! ?l)\<lparr>sym_n := sym_n (?s0 ! ?l) + sym_n (?s0 ! ?r)\<rparr>]"
    define s2 where "s2 = s1[?r := (s1 ! ?r)\<lparr>sym_n := 0\<rparr>]"
    define s3 where "s3 = s2[?l := (s2 ! ?l)\<lparr>sym_next := sym_next (s2 ! ?r)\<rparr>]"
    define nx where "nx = sym_next (s3 ! ?r)"
    define s4 where "s4 = (if 0 \<le> nx
                        then s3[nat nx := (s3 ! nat nx)\<lparr>sym_prev := bg_left bigram\<rparr>]
                        else s3)"
    have len: "length s1 = length ?s0" "length s2 = length ?s0" "length s3 = length ?s0"
      by (simp_all add: s1_def s2_def s3_def)
    from assms rng False obtain st2 where
      nxr: "\<not> (0 \<le> nx \<and> \<not> nx < int (length s3))"
      and t1: "try_add_bigram vocab str (st\<lparr>symbols := s4\<rparr>) (sym_prev (s4 ! ?l)) (bg_left bigram) = Inr st2"
      and t2: "try_add_bigram vocab str st2 (bg_left bigram) (sym_next (symbols st2 ! ?l)) = Inr st'"
      unfolding merge_bigram_def Let_def s1_def [symmetric] s2_def [symmetric]
        s3_def [symmetric] nx_def [symmetric] s4_def [symmetric]
      by (auto split: if_splits sum.splits)
    have c1: "live_count s1 = live_count ?s0"
      unfolding s1_def using rng False by (intro live_count_update_same) auto
    have "0 < sym_n (s1 ! ?r)"
      using rng False by (auto simp: s1_def nth_list_update)
    then have c2: "Suc (live_count s2) = live_count s1"
      unfolding s2_def using rng len by (intro live_count_update_kill) auto
    have c3: "live_count s3 = live_count s2"
      unfolding s3_def using rng len by (intro live_count_update_same) auto
    have c4: "live_count s4 = live_count s3"
      unfolding s4_def using nxr by (auto intro!: live_count_update_same)
    have q1: "length (work_queue st2) \<le> Suc (length (work_queue st))"
      using try_add_bigram_queue [OF t1] by simp
    have q2: "length (work_queue st') \<le> Suc (length (work_queue st2))"
      using try_add_bigram_queue [OF t2] .
    have sy: "symbols st' = s4"
      using try_add_bigram_symbols [OF t2] try_add_bigram_symbols [OF t1] by simp
    show ?thesis
      using c1 c2 c3 c4 q1 q2 sy by simp
  qed
qed

lemma merge_step_measure:
  assumes "work_queue st \<noteq> []" and "merge_step vocab str st = Inr st'"
  shows "2 * live_count (symbols st') + length (work_queue st')
           < 2 * live_count (symbols st) + length (work_queue st)"
  using merge_bigram_measure [of vocab str "st\<lparr>work_queue := pq_pop (work_queue st)\<rparr>" "pq_top (work_queue st)" st']
    assms length_pq_pop [of "work_queue st"]
  by (simp add: merge_step_def Let_def)

text \<open>The third loop of \<open>tokenize\<close>: pop and merge until the queue is empty.\<close>

function merge_loop ::
  "llama_vocab \<Rightarrow> string \<Rightarrow> llm_tokenizer_spm \<Rightarrow> error + llm_tokenizer_spm" where
  "merge_loop vocab str st =
     (if work_queue st \<noteq> []
      then (case merge_step vocab str st of Inl e \<Rightarrow> Inl e
            | Inr st' \<Rightarrow> merge_loop vocab str st')
      else Inr st)"
  by pat_completeness auto
termination
  by (relation "measure (\<lambda>(vocab, str, st).
        2 * live_count (symbols st) + length (work_queue st))")
     (auto dest: merge_step_measure)

declare merge_loop.simps [simp del]

text \<open>
  The byte loop of \<open>resegment\<close> over the bytes of the symbol; \<open>llama_byte_to_token\<close>
  takes each \<open>char\<close> as a \<open>uint8_t\<close>.
\<close>

fun byte_fallback :: "llama_vocab \<Rightarrow> string \<Rightarrow> int list \<Rightarrow> error + int list" where
  "byte_fallback vocab [] output = Inr output"
| "byte_fallback vocab (c # cs) output =
     (case llama_byte_to_token vocab (of_char c) of Inl e \<Rightarrow> Inl e
      | Inr token_id \<Rightarrow> byte_fallback vocab cs (output @ [token_id]))"

text \<open>\<open>resegment\<close>; \<open>None\<close> stands for a recursion that does not end, and
  \<open>Option.bind\<close> passes it on.\<close>

partial_function (option) resegment ::
  "llama_vocab \<Rightarrow> string \<Rightarrow> llm_tokenizer_spm \<Rightarrow> llm_symbol \<Rightarrow> int list \<Rightarrow> (error + int list) option" where
  "resegment vocab str st symbol output =
     (case read_bytes str (sym_text symbol) (sym_n symbol) of Inl e \<Rightarrow> Some (Inl e)
      | Inr text \<Rightarrow>
        (case token_to_id vocab text of Some token \<Rightarrow> Some (Inr (output @ [token]))
         | None \<Rightarrow>
           (case rev_merge st text of None \<Rightarrow> Some (byte_fallback vocab text output)
            | Some p \<Rightarrow>
              (case symbol_at st (fst p) of Inl e \<Rightarrow> Some (Inl e)
               | Inr lsym \<Rightarrow>
                 Option.bind (resegment vocab str st lsym output)
                   (\<lambda>res. case res of Inl e \<Rightarrow> Some (Inl e)
                      | Inr output1 \<Rightarrow>
                        (case symbol_at st (snd p) of Inl e \<Rightarrow> Some (Inl e)
                         | Inr rsym \<Rightarrow> resegment vocab str st rsym output1))))))"

declare resegment.simps [code]

text \<open>The last loop of \<open>tokenize\<close>: it follows \<open>next\<close> from symbol 0 until \<open>-1\<close>.\<close>

partial_function (option) resegment_loop ::
  "llama_vocab \<Rightarrow> string \<Rightarrow> llm_tokenizer_spm \<Rightarrow> int \<Rightarrow> int list \<Rightarrow> (error + int list) option" where
  "resegment_loop vocab str st i output =
     (if i \<noteq> -1
      then (case symbol_at st i of Inl e \<Rightarrow> Some (Inl e)
            | Inr symbol \<Rightarrow>
              Option.bind (resegment vocab str st symbol output)
                (\<lambda>res. case res of Inl e \<Rightarrow> Some (Inl e)
                   | Inr output1 \<Rightarrow> resegment_loop vocab str st (sym_next symbol) output1))
      else Some (Inr output))"

declare resegment_loop.simps [code]

definition tokenize :: "llama_vocab \<Rightarrow> string \<Rightarrow> int list \<Rightarrow> (error + int list) option" where
  "tokenize vocab str output =
     (case split_loop str 0 0 [] of Inl e \<Rightarrow> Some (Inl e)
      | Inr syms \<Rightarrow>
        (case seed_loop vocab str \<lparr>symbols = syms, work_queue = [], rev_merge = Map.empty\<rparr> 1 of
           Inl e \<Rightarrow> Some (Inl e)
         | Inr st1 \<Rightarrow>
           (case merge_loop vocab str st1 of Inl e \<Rightarrow> Some (Inl e)
            | Inr st2 \<Rightarrow> resegment_loop vocab str st2 0 output)))"

definition spm_tokenize ::
  "llama_vocab \<Rightarrow> string \<Rightarrow> bool \<Rightarrow> bool \<Rightarrow> (error + int list) option" where
  "spm_tokenize vocab raw_text bos escape =
     (if raw_text = [] then Some (Inr [])
      else
        (case vtype vocab of
           LLAMA_VOCAB_TYPE_SPM \<Rightarrow>
             tokenize vocab (if escape then get_llama_escape_whitespac raw_text else raw_text)
               (if bos then [special_bos_id vocab] else [])
         | _ \<Rightarrow> (case GGML_ASSERT False of Inl e \<Rightarrow> Some (Inl e) | Inr _ \<Rightarrow> Some (Inr []))))"

section \<open>Token to text\<close>

text \<open>
  \<open>llama_token_to_str\<close> returns its \<open>int\<close> and the buffer as it leaves it; \<open>memcpy\<close>
  overwrites the first bytes of \<open>buf\<close>.
\<close>

definition llama_token_to_str ::
  "llama_vocab \<Rightarrow> int \<Rightarrow> string \<Rightarrow> int \<Rightarrow> (error + int \<times> string) option" where
  "llama_token_to_str vocab token buf len =
     (case llama_is_normal_token vocab token of Inl e \<Rightarrow> Some (Inl e)
      | Inr is_normal \<Rightarrow>
        if is_normal then
          (case (if llama_vocab_get_type vocab = LLAMA_VOCAB_TYPE_SPM
                 then llama_unescape_whitespace (tok_text (id_to_token vocab ! nat token))
                 else Some (Inr (tok_text (id_to_token vocab ! nat token)))) of
             None \<Rightarrow> None
           | Some (Inl e) \<Rightarrow> Some (Inl e)
           | Some (Inr result) \<Rightarrow>
               if len < int (length result) then Some (Inr (- int (length result), buf))
               else Some (Inr (int (length result), result @ drop (length result) buf)))
        else
          (case llama_is_unknown_token vocab token of Inl e \<Rightarrow> Some (Inl e)
           | Inr is_unknown \<Rightarrow>
             if is_unknown then
               (if len < 3 then Some (Inr (- 3, buf))
                else Some (Inr (3, [CHR 0xE2, CHR 0x96, CHR 0x85] @ drop 3 buf)))
             else
               (case llama_is_control_token vocab token of Inl e \<Rightarrow> Some (Inl e)
                | Inr is_control \<Rightarrow>
                  if is_control then Some (Inr (0, buf))
                  else
                    (case llama_is_byte_token vocab token of Inl e \<Rightarrow> Some (Inl e)
                     | Inr is_byte \<Rightarrow>
                       if is_byte then
                         (if len < 1 then Some (Inr (- 1, buf))
                          else (case llama_token_to_byte vocab token of Inl e \<Rightarrow> Some (Inl e)
                                | Inr b \<Rightarrow> Some (Inr (1, [char_of (unat b)] @ drop 1 buf))))
                       else Some (Inr (0, buf))))))"

text \<open>\<open>std::vector<char>::resize\<close>: cut, or fill with zero bytes.\<close>

definition resize :: "string \<Rightarrow> nat \<Rightarrow> string" where
  "resize xs k = take k xs @ replicate (k - length xs) (CHR 0x00)"

definition llama_token_to_text :: "llama_vocab \<Rightarrow> int \<Rightarrow> (error + string) option" where
  "llama_token_to_text vocab token =
     (let result = replicate 8 (CHR 0x00) in
      case llama_token_to_str vocab token result (int (length result)) of
        None \<Rightarrow> None
      | Some (Inl e) \<Rightarrow> Some (Inl e)
      | Some (Inr (n_tokens, result1)) \<Rightarrow>
          if n_tokens < 0 then
            (let result2 = resize result1 (nat (- n_tokens)) in
             case llama_token_to_str vocab token result2 (int (length result2)) of
               None \<Rightarrow> None
             | Some (Inl e) \<Rightarrow> Some (Inl e)
             | Some (Inr (check, result3)) \<Rightarrow>
                 (case GGML_ASSERT (check = - n_tokens) of Inl e \<Rightarrow> Some (Inl e)
                  | Inr _ \<Rightarrow> Some (Inr result3)))
          else Some (Inr (resize result1 (nat n_tokens))))"

section \<open>Vocabularies and tables used as concrete inputs\<close>

text \<open>A vocabulary of the SentencePiece type whose ids are the positions in the list.\<close>

definition mk_vocab :: "(string \<times> real \<times> llama_token_type) list \<Rightarrow> llama_vocab" where
  "mk_vocab toks =
     \<lparr>vtype = LLAMA_VOCAB_TYPE_SPM,
      token_to_id = map_of (zip (map fst toks) (map int [0..<length toks])),
      id_to_token = map (\<lambda>(t, s, ty). \<lparr>tok_text = t, tok_score = s, tok_type = ty\<rparr>) toks,
      special_bos_id = 1, special_eos_id = 2, special_unk_id = 0,
      special_sep_id = -1, special_pad_id = -1, linefeed_id = 13\<rparr>"

definition vocab_bytes :: llama_vocab where
  "vocab_bytes = mk_vocab
     [(''<unk>'', 0, LLAMA_TOKEN_TYPE_UNKNOWN), (''<s>'', 0, LLAMA_TOKEN_TYPE_CONTROL),
      (''</s>'', 0, LLAMA_TOKEN_TYPE_CONTROL), (''<0x80>'', 0, LLAMA_TOKEN_TYPE_BYTE),
      (''<0x41>'', 0, LLAMA_TOKEN_TYPE_BYTE), ([CHR 0xE2, CHR 0x96, CHR 0x81, CHR ''a''], -1, LLAMA_TOKEN_TYPE_NORMAL)]"

text \<open>The symbol that the first loop of \<open>tokenize\<close> makes at index \<open>k\<close> of \<open>len\<close>
  one-byte characters.\<close>

definition one_byte_span :: "nat \<Rightarrow> nat \<Rightarrow> llm_symbol" where
  "one_byte_span len k =
     \<lparr>sym_prev = int k - 1, sym_next = (if k + 1 = len then -1 else int k + 1),
      sym_text = k, sym_n = 1\<rparr>"

definition vocab_ab :: llama_vocab where
  "vocab_ab = mk_vocab
     [(''a'', 1, LLAMA_TOKEN_TYPE_NORMAL), (''b'', 1, LLAMA_TOKEN_TYPE_NORMAL),
      (''ab'', 2, LLAMA_TOKEN_TYPE_NORMAL)]"

definition vocab_a_b :: llama_vocab where
  "vocab_a_b = mk_vocab
     [(''a'', 1, LLAMA_TOKEN_TYPE_NORMAL), (''b'', 1, LLAMA_TOKEN_TYPE_NORMAL)]"

definition vocab_abc :: llama_vocab where
  "vocab_abc = mk_vocab
     [(''a'', 1, LLAMA_TOKEN_TYPE_NORMAL), (''b'', 1, LLAMA_TOKEN_TYPE_NORMAL),
      (''c'', 1, LLAMA_TOKEN_TYPE_NORMAL), (''ab'', 2, LLAMA_TOKEN_TYPE_NORMAL),
      (''bc'', 2, LLAMA_TOKEN_TYPE_NORMAL)]"

text \<open>The tokenizer on the text \<open>abc\<close> with \<open>vocab_abc\<close>, after the second loop.\<close>

definition st_abc :: llm_tokenizer_spm where
  "st_abc = \<lparr>symbols = [one_byte_span 3 0, one_byte_span 3 1, one_byte_span 3 2],
     work_queue = [\<lparr>bg_left = 0, bg_right = 1, bg_score = 2, bg_size = 2\<rparr>,
                   \<lparr>bg_left = 1, bg_right = 2, bg_score = 2, bg_size = 2\<rparr>],
     rev_merge = [''ab'' \<mapsto> (0, 1), ''bc'' \<mapsto> (1, 2)]\<rparr>"

text \<open>
  The offsets at which the first loop of \<open>tokenize\<close> reads a leading byte and computes a
  length, from the offset \<open>offs\<close> on.
\<close>

function char_offsets :: "string \<Rightarrow> nat \<Rightarrow> nat list" where
  "char_offsets s offs =
     (if offs < length s then offs # char_offsets s (offs + utf8_len (s ! offs)) else [])"
  by pat_completeness auto
termination
  apply (relation "measure (\<lambda>(s, offs). length s - offs)")
   apply simp
  subgoal for s offs
    using utf8_len_pos [of "s ! offs"] by simp
  done

declare char_offsets.simps [simp del]

text \<open>
  One symbol for each of the offsets \<open>ks\<close>, numbered from \<open>index\<close>: it starts at its
  offset, has the length \<open>utf8_len\<close> gives for the byte there, and is linked to its
  neighbours by index.
\<close>

fun span_from :: "string \<Rightarrow> int \<Rightarrow> nat list \<Rightarrow> llm_symbol list" where
  "span_from s index [] = []"
| "span_from s index (k # ks) =
     \<lparr>sym_prev = index - 1, sym_next = (if ks = [] then -1 else index + 1),
      sym_text = k, sym_n = utf8_len (s ! k)\<rparr> # span_from s (index + 1) ks"

text \<open>What the spec says escaping does: every space becomes the marker, nothing else changes.\<close>

definition escape_spaces :: "string \<Rightarrow> string" where
  "escape_spaces text = concat (map (\<lambda>c. if c = CHR '' '' then ws_marker else [c]) text)"

text \<open>What the spec says unescaping does: each 3-byte marker, read from the left, becomes
  one space.\<close>

fun unescape_marker :: "string \<Rightarrow> string" where
  "unescape_marker [] = []"
| "unescape_marker (c # cs) =
     (if take 3 (c # cs) = [CHR 0xE2, CHR 0x96, CHR 0x81]
      then CHR '' '' # unescape_marker (drop 2 cs)
      else c # unescape_marker cs)"

text \<open>A vocabulary whose only token has the type byte and a one-character text.\<close>

definition vocab_short_byte :: llama_vocab where
  "vocab_short_byte = mk_vocab [(''x'', 0, LLAMA_TOKEN_TYPE_BYTE)]"

section \<open>The points of \<open>tokenize\<close> and the states reached there\<close>

text \<open>
  The places between the steps of \<open>tokenize\<close>: at the head of the second loop with its
  counter, at the head of the third loop, and before the last loop.
\<close>

datatype point = Seeding nat | Merging | Resegmenting

text \<open>
  \<open>tokenize_at vocab str pt st\<close>: the run of \<open>tokenize\<close> on \<open>str\<close> is at the point \<open>pt\<close>
  with the tokenizer state \<open>st\<close>. The run starts after the first loop and then makes the
  steps of the second and third loops, one call of \<open>try_add_bigram\<close> or one pop at a time.
  A pop may take any candidate that is a top of the queue, so the states of every heap
  order are covered; \<open>merge_step\<close> takes one of them.
\<close>

inductive tokenize_at :: "llama_vocab \<Rightarrow> string \<Rightarrow> point \<Rightarrow> llm_tokenizer_spm \<Rightarrow> bool"
  for vocab :: llama_vocab and str :: string where
  at_split:
    "split_loop str 0 0 [] = Inr syms \<Longrightarrow>
     tokenize_at vocab str (Seeding 1) \<lparr>symbols = syms, work_queue = [], rev_merge = Map.empty\<rparr>"
| at_seed:
    "tokenize_at vocab str (Seeding i) st \<Longrightarrow> i < length (symbols st) \<Longrightarrow>
     try_add_bigram vocab str st (int i - 1) (int i) = Inr st' \<Longrightarrow>
     tokenize_at vocab str (Seeding (i + 1)) st'"
| at_seeded:
    "tokenize_at vocab str (Seeding i) st \<Longrightarrow> \<not> i < length (symbols st) \<Longrightarrow>
     tokenize_at vocab str Merging st"
| at_merge:
    "tokenize_at vocab str Merging st \<Longrightarrow> is_top (work_queue st) bigram \<Longrightarrow>
     merge_bigram vocab str (st\<lparr>work_queue := remove1 bigram (work_queue st)\<rparr>) bigram = Inr st' \<Longrightarrow>
     tokenize_at vocab str Merging st'"
| at_merged:
    "tokenize_at vocab str Merging st \<Longrightarrow> \<not> work_queue st \<noteq> [] \<Longrightarrow>
     tokenize_at vocab str Resegmenting st"

text \<open>
  The indices met by following \<open>next\<close> from index \<open>i\<close> until \<open>-1\<close>, in at most \<open>fuel\<close>
  steps; \<open>None\<close> when an index is outside the table or the fuel runs out.
\<close>

fun chain_from :: "llm_symbol list \<Rightarrow> nat \<Rightarrow> int \<Rightarrow> nat list option" where
  "chain_from syms 0 i = (if i = -1 then Some [] else None)"
| "chain_from syms (Suc fuel) i =
     (if i = -1 then Some []
      else if 0 \<le> i \<and> i < int (length syms)
      then map_option (Cons (nat i)) (chain_from syms fuel (sym_next (syms ! nat i)))
      else None)"

text \<open>The symbols at the indices \<open>is\<close>, in this order, are live and lie end to end from
  offset \<open>offs\<close> to offset \<open>e\<close>.\<close>

fun covers :: "llm_symbol list \<Rightarrow> nat list \<Rightarrow> nat \<Rightarrow> nat \<Rightarrow> bool" where
  "covers syms [] offs e = (offs = e)"
| "covers syms (i # is) offs e =
     (sym_text (syms ! i) = offs \<and> 0 < sym_n (syms ! i)
      \<and> covers syms is (offs + sym_n (syms ! i)) e)"

text \<open>The bytes of the text that a symbol covers.\<close>

definition span_text :: "string \<Rightarrow> llm_symbol \<Rightarrow> string" where
  "span_text str s = take (sym_n s) (drop (sym_text s) str)"

text \<open>
  The property of claim C2: following \<open>next\<close> from symbol 0 ends, meets exactly the live
  symbols in the order of their indices, these lie end to end from offset 0 to the end of
  the text, and their texts concatenated are the text.
\<close>

definition partition_ok :: "string \<Rightarrow> llm_symbol list \<Rightarrow> bool" where
  "partition_ok str syms =
     (case chain_from syms (length syms) 0 of
        None \<Rightarrow> False
      | Some is \<Rightarrow>
          is = filter (\<lambda>i. 0 < sym_n (syms ! i)) [0..<length syms]
          \<and> covers syms is 0 (length str)
          \<and> concat (map (\<lambda>i. span_text str (syms ! i)) is) = str)"

text \<open>
  The invariants that the proofs carry. For a live symbol, \<open>prev\<close> is \<open>-1\<close> at index 0 and
  otherwise a live symbol to the left whose \<open>next\<close> points back.
\<close>

definition prev_ok :: "llm_symbol list \<Rightarrow> nat \<Rightarrow> bool" where
  "prev_ok syms i =
     ((i = 0 \<and> sym_prev (syms ! i) = -1 \<and> sym_text (syms ! i) = 0)
      \<or> (\<exists>p. sym_prev (syms ! i) = int p \<and> p < i \<and> 0 < sym_n (syms ! p)
            \<and> sym_next (syms ! p) = int i))"

text \<open>For a live symbol, \<open>next\<close> is \<open>-1\<close> at the end of the text with no live symbol behind
  it, and otherwise the next live symbol, which starts where this one ends.\<close>

definition next_ok :: "string \<Rightarrow> llm_symbol list \<Rightarrow> nat \<Rightarrow> bool" where
  "next_ok str syms i =
     ((sym_next (syms ! i) = -1 \<and> sym_text (syms ! i) + sym_n (syms ! i) = length str
        \<and> (\<forall>k. i < k \<and> k < length syms \<longrightarrow> sym_n (syms ! k) = 0))
      \<or> (\<exists>j. sym_next (syms ! i) = int j \<and> i < j \<and> j < length syms \<and> 0 < sym_n (syms ! j)
            \<and> sym_text (syms ! j) = sym_text (syms ! i) + sym_n (syms ! i)
            \<and> sym_prev (syms ! j) = int i
            \<and> (\<forall>k. i < k \<and> k < j \<longrightarrow> sym_n (syms ! k) = 0)))"

definition sym_inv :: "string \<Rightarrow> llm_symbol list \<Rightarrow> bool" where
  "sym_inv str syms =
     (syms \<noteq> [] \<and> 0 < sym_n (syms ! 0)
      \<and> (\<forall>i<length syms. 0 < sym_n (syms ! i) \<longrightarrow>
            prev_ok syms i \<and> next_ok str syms i
            \<and> sym_text (syms ! i) + sym_n (syms ! i) \<le> length str))"

text \<open>Every candidate names two indices of the table, and when both symbols are live the
  right one is the \<open>next\<close> of the left one.\<close>

definition queue_inv :: "llm_symbol list \<Rightarrow> llm_bigram_spm list \<Rightarrow> bool" where
  "queue_inv syms q =
     (\<forall>b\<in>set q. \<exists>l r. bg_left b = int l \<and> bg_right b = int r
         \<and> l < length syms \<and> r < length syms
         \<and> (0 < sym_n (syms ! l) \<and> 0 < sym_n (syms ! r) \<longrightarrow> sym_next (syms ! l) = int r))"

text \<open>Every key of the merge history is a vocabulary entry.\<close>

definition rev_inv :: "llama_vocab \<Rightarrow> llm_tokenizer_spm \<Rightarrow> bool" where
  "rev_inv vocab st = (\<forall>t. rev_merge st t \<noteq> None \<longrightarrow> token_to_id vocab t \<noteq> None)"

definition tok_inv :: "llama_vocab \<Rightarrow> string \<Rightarrow> llm_tokenizer_spm \<Rightarrow> bool" where
  "tok_inv vocab str st =
     (sym_inv str (symbols st) \<and> queue_inv (symbols st) (work_queue st) \<and> rev_inv vocab st)"


text \<open>The table at the head of the first loop, \<open>offs\<close> bytes into the text.\<close>

definition split_inv :: "string \<Rightarrow> llm_symbol list \<Rightarrow> nat \<Rightarrow> bool" where
  "split_inv str syms offs =
     (offs \<le> length str \<and> (syms = [] \<longrightarrow> offs = 0)
      \<and> (\<forall>i<length syms.
            sym_prev (syms ! i) = int i - 1 \<and> 0 < sym_n (syms ! i)
            \<and> (i = 0 \<longrightarrow> sym_text (syms ! i) = 0)
            \<and> sym_text (syms ! i) + sym_n (syms ! i)
                = (if Suc i < length syms then sym_text (syms ! Suc i) else offs)
            \<and> sym_next (syms ! i)
                = (if Suc i = length syms \<and> offs = length str then -1 else int i + 1)))"

definition all_live :: "llm_symbol list \<Rightarrow> bool" where
  "all_live syms = (\<forall>i<length syms. 0 < sym_n (syms ! i))"

text \<open>The arguments with which \<open>try_add_bigram\<close> is called.\<close>

definition adjacent :: "llm_symbol list \<Rightarrow> int \<Rightarrow> int \<Rightarrow> bool" where
  "adjacent syms left right =
     (left = -1 \<or> right = -1
      \<or> (\<exists>l r. left = int l \<and> right = int r \<and> l < length syms \<and> r < length syms
            \<and> (0 < sym_n (syms ! l) \<and> 0 < sym_n (syms ! r) \<longrightarrow> sym_next (syms ! l) = int r)))"

definition cand_ok :: "llm_symbol list \<Rightarrow> llm_bigram_spm \<Rightarrow> bool" where
  "cand_ok syms b =
     (\<exists>l r. bg_left b = int l \<and> bg_right b = int r
         \<and> l < length syms \<and> r < length syms
         \<and> (0 < sym_n (syms ! l) \<and> 0 < sym_n (syms ! r) \<longrightarrow> sym_next (syms ! l) = int r))"

text \<open>The tokenizer on the text \<open>ab\<close> with \<open>vocab_ab\<close>: after the second loop and after the
  third.\<close>

definition st_ab_seeded :: llm_tokenizer_spm where
  "st_ab_seeded =
     \<lparr>symbols = [one_byte_span 2 0, one_byte_span 2 1],
      work_queue = [\<lparr>bg_left = 0, bg_right = 1, bg_score = 2, bg_size = 2\<rparr>],
      rev_merge = [''ab'' \<mapsto> (0, 1)]\<rparr>"

definition st_ab_merged :: llm_tokenizer_spm where
  "st_ab_merged =
     \<lparr>symbols = [\<lparr>sym_prev = -1, sym_next = -1, sym_text = 0, sym_n = 2\<rparr>,
                 \<lparr>sym_prev = 0, sym_next = -1, sym_text = 1, sym_n = 0\<rparr>],
      work_queue = [],
      rev_merge = [''ab'' \<mapsto> (0, 1)]\<rparr>"

text \<open>The check of the third loop on the popped candidate: a symbol is dead or the size
  does not fit (the candidate is skipped).\<close>

definition stale :: "llm_tokenizer_spm \<Rightarrow> llm_bigram_spm \<Rightarrow> bool" where
  "stale st bigram =
     (sym_n (symbols st ! nat (bg_left bigram)) = 0
      \<or> sym_n (symbols st ! nat (bg_right bigram)) = 0
      \<or> sym_n (symbols st ! nat (bg_left bigram)) + sym_n (symbols st ! nat (bg_right bigram))
           \<noteq> bg_size bigram)"

text \<open>The tokenizer on the text \<open>abc\<close> with \<open>vocab_abc\<close> after the first pop of the third
  loop.\<close>

definition st_abc_merged :: llm_tokenizer_spm where
  "st_abc_merged =
     \<lparr>symbols = [\<lparr>sym_prev = -1, sym_next = 2, sym_text = 0, sym_n = 2\<rparr>,
                 \<lparr>sym_prev = 0, sym_next = 2, sym_text = 1, sym_n = 0\<rparr>,
                 \<lparr>sym_prev = 0, sym_next = -1, sym_text = 2, sym_n = 1\<rparr>],
      work_queue = [\<lparr>bg_left = 1, bg_right = 2, bg_score = 2, bg_size = 2\<rparr>],
      rev_merge = [''ab'' \<mapsto> (0, 1), ''bc'' \<mapsto> (1, 2)]\<rparr>"

text \<open>The tokenizer on the one byte 0x80 with \<open>vocab_bytes\<close>, after the third loop.\<close>

definition st_byte :: llm_tokenizer_spm where
  "st_byte =
     \<lparr>symbols = [\<lparr>sym_prev = -1, sym_next = -1, sym_text = 0, sym_n = 1\<rparr>],
      work_queue = [], rev_merge = Map.empty\<rparr>"

section \<open>Span-table construction\<close>

lemma utf8_len_nibble:
  "utf8_len c = [1, 1, 1, 1, 1, 1, 1, 1, 1, 1, 1, 1, 2, 2, 3, 4] ! ((of_char c :: nat) div 16)"
proof -
  have "unat (drop_bit 4 (of_char c :: 8 word)) = unat (of_char c :: 8 word) div 16"
    by (simp add: drop_bit_eq_div unat_div)
  moreover have "unat (of_char c :: 8 word) = (of_char c :: nat)"
  proof -
    have "unat (of_char c :: 8 word) = unat (word_of_nat (of_char c) :: 8 word)"
      by (simp only: of_nat_of_char)
    also have "\<dots> = (of_char c :: nat) mod 256"
      by (simp add: unat_of_nat)
    finally show ?thesis by simp
  qed
  ultimately show ?thesis by (simp add: utf8_len_def)
qed

lemma utf8_lookup_range:
  "\<forall>k\<in>set [0..<16]. [1, 1, 1, 1, 1, 1, 1, 1, 1, 1, 1, 1, 2, 2, 3, 4 :: nat] ! k \<in> {1, 2, 3, 4}"
  by code_simp

lemma utf8_lookup_continuation:
  "\<forall>k\<in>set [8..<12]. [1, 1, 1, 1, 1, 1, 1, 1, 1, 1, 1, 1, 2, 2, 3, 4 :: nat] ! k = 1"
  by code_simp

lemma utf8_len_cases: "utf8_len c \<in> {1, 2, 3, 4}"
proof -
  have "(of_char c :: nat) div 16 < 16"
    by (rule less_mult_imp_div_less) simp
  then have "(of_char c :: nat) div 16 \<in> set [0..<16]" by simp
  with utf8_lookup_range show ?thesis
    unfolding utf8_len_nibble by blast
qed

lemma utf8_len_continuation:
  assumes "8 \<le> (of_char c :: nat) div 16" "(of_char c :: nat) div 16 \<le> 11"
  shows "utf8_len c = 1"
proof -
  from assms have "8 \<le> (of_char c :: nat) div 16 \<and> (of_char c :: nat) div 16 < 12" by simp
  then have "(of_char c :: nat) div 16 \<in> set [8..<12]"
    by (simp only: set_upt atLeastLessThan_iff)
  with utf8_lookup_continuation show ?thesis
    unfolding utf8_len_nibble by blast
qed

lemma split_loop_done: "\<not> offs < length s \<Longrightarrow> split_loop s index offs syms = Inr syms"
  by (subst split_loop.simps) simp

lemma split_loop_overrun:
  "offs < length s \<Longrightarrow> \<not> offs + utf8_len (s ! offs) \<le> length s \<Longrightarrow>
   split_loop s index offs syms = Inl AssertFailed"
  by (subst split_loop.simps) (simp add: GGML_ASSERT_def Let_def)

lemma split_loop_step:
  "offs < length s \<Longrightarrow> offs + utf8_len (s ! offs) \<le> length s \<Longrightarrow>
   split_loop s index offs syms =
     split_loop s (index + 1) (offs + utf8_len (s ! offs))
       (syms @ [\<lparr>sym_prev = index - 1,
                 sym_next = (if offs + utf8_len (s ! offs) = length s then -1 else index + 1),
                 sym_text = offs, sym_n = utf8_len (s ! offs)\<rparr>])"
  by (subst split_loop.simps) (simp add: GGML_ASSERT_def Let_def)

lemma split_loop_one_byte:
  "\<forall>c\<in>set s. utf8_len c = 1 \<Longrightarrow> offs \<le> length s \<Longrightarrow>
   split_loop s (int offs) offs syms = Inr (syms @ map (one_byte_span (length s)) [offs..<length s])"
proof (induction "length s - offs" arbitrary: offs syms)
  case 0
  then show ?case by (simp add: split_loop_done)
next
  case (Suc d)
  then have lt: "offs < length s" by simp
  with Suc.prems have len: "utf8_len (s ! offs) = 1" by simp
  have "split_loop s (int offs) offs syms =
        split_loop s (int (Suc offs)) (Suc offs) (syms @ [one_byte_span (length s) offs])"
    using lt len by (subst split_loop_step) (simp_all add: one_byte_span_def add.commute)
  also have "\<dots> = Inr ((syms @ [one_byte_span (length s) offs]) @ map (one_byte_span (length s)) [Suc offs..<length s])"
    using Suc.hyps(2) Suc.prems lt by (intro Suc.hyps(1)) simp_all
  finally show ?case using lt by (simp add: upt_conv_Cons)
qed

lemma char_offsets_done: "\<not> offs < length s \<Longrightarrow> char_offsets s offs = []"
  by (subst char_offsets.simps) simp

lemma char_offsets_step:
  "offs < length s \<Longrightarrow> char_offsets s offs = offs # char_offsets s (offs + utf8_len (s ! offs))"
  by (subst char_offsets.simps) simp

lemma split_loop_char_offsets:
  "split_loop s index offs syms =
     (if \<exists>k\<in>set (char_offsets s offs). length s < k + utf8_len (s ! k)
      then Inl AssertFailed
      else Inr (syms @ span_from s index (char_offsets s offs)))"
proof (induction "length s - offs" arbitrary: index offs syms rule: less_induct)
  case less
  show ?case
  proof (cases "offs < length s")
    case False
    then show ?thesis by (simp add: split_loop_done char_offsets_done)
  next
    case True
    let ?o = "offs + utf8_len (s ! offs)"
    show ?thesis
    proof (cases "?o \<le> length s")
      case False
      then have "char_offsets s ?o = []" by (simp add: char_offsets_done)
      with True False show ?thesis
        by (simp add: split_loop_overrun char_offsets_step)
    next
      case ok: True
      have dec: "length s - ?o < length s - offs"
        using True utf8_len_pos [of "s ! offs"] by arith
      have last: "(char_offsets s ?o = []) = (?o = length s)"
      proof (cases "?o < length s")
        case True
        then show ?thesis by (simp add: char_offsets_step)
      next
        case False
        with ok show ?thesis by (simp add: char_offsets_done)
      qed
      have ex: "(\<exists>k\<in>set (char_offsets s offs). length s < k + utf8_len (s ! k))
                  = (\<exists>k\<in>set (char_offsets s ?o). length s < k + utf8_len (s ! k))"
        using True ok by (simp add: char_offsets_step [OF True])
      have sp: "span_from s index (char_offsets s offs) =
              \<lparr>sym_prev = index - 1, sym_next = (if ?o = length s then -1 else index + 1),
                sym_text = offs, sym_n = utf8_len (s ! offs)\<rparr>
              # span_from s (index + 1) (char_offsets s ?o)"
        using last by (simp add: char_offsets_step [OF True])
      show ?thesis
        unfolding split_loop_step [OF True ok] less.hyps [OF dec] ex sp by simp
    qed
  qed
qed

lemma byte_fallback_all:
  "\<forall>c\<in>set bs. token_to_id vocab (snprintf_byte (of_char c)) \<noteq> None \<Longrightarrow>
   byte_fallback vocab bs out
     = Inr (out @ map (\<lambda>c. the (token_to_id vocab (snprintf_byte (of_char c)))) bs)"
proof (induction bs arbitrary: out)
  case Nil
  then show ?case by simp
next
  case (Cons c cs)
  have len: "length (snprintf_byte (of_char c)) = 6" by (simp add: snprintf_byte_def)
  from Cons.prems obtain t where t: "token_to_id vocab (snprintf_byte (of_char c)) = Some t"
    by auto
  from Cons.prems have "\<forall>c\<in>set cs. token_to_id vocab (snprintf_byte (of_char c)) \<noteq> None"
    by simp
  from Cons.IH [OF this, of "out @ [t]"] t show ?case
    by (simp add: llama_byte_to_token_def GGML_ASSERT_def Let_def len)
qed

text \<open>
  Claim C10, as the code has it. \<open>utf8_len\<close> returns 1, 2, 3 or 4 for every byte, and 1
  for a continuation byte (high nibble 8 to 11). The first loop of \<open>tokenize\<close> fails
  exactly when, at an offset where it computes a length, offset plus length runs past the
  end of the text, and then by its assertion. A text with no such overrun, malformed or
  not, is accepted and split into one symbol for each of these offsets, of the length
  computed there; a text whose bytes all have length 1 (a lone continuation byte, say) is
  split into one-byte symbols. The byte loop gives every byte sequence its byte token
  ids when the vocabulary has the byte tokens.
\<close>

theorem utf8_len_total_and_split_by_lead_byte:
  "utf8_len c \<in> {1, 2, 3, 4}
   \<and> (8 \<le> (of_char c :: nat) div 16 \<and> (of_char c :: nat) div 16 \<le> 11 \<longrightarrow> utf8_len c = 1)
   \<and> (split_loop s 0 0 [] = Inl e \<longleftrightarrow>
        e = AssertFailed \<and> (\<exists>k\<in>set (char_offsets s 0). length s < k + utf8_len (s ! k)))
   \<and> ((\<forall>k\<in>set (char_offsets s 0). k + utf8_len (s ! k) \<le> length s) \<longrightarrow>
        split_loop s 0 0 [] = Inr (span_from s 0 (char_offsets s 0)))
   \<and> ((\<forall>b\<in>set s. utf8_len b = 1) \<longrightarrow>
        split_loop s 0 0 [] = Inr (map (one_byte_span (length s)) [0..<length s]))
   \<and> ((\<forall>b\<in>set s. token_to_id vocab (snprintf_byte (of_char b)) \<noteq> None) \<longrightarrow>
        byte_fallback vocab s out
          = Inr (out @ map (\<lambda>b. the (token_to_id vocab (snprintf_byte (of_char b)))) s))"
proof (intro conjI impI)
  show "utf8_len c \<in> {1, 2, 3, 4}" by (rule utf8_len_cases)
  show "utf8_len c = 1" if "8 \<le> (of_char c :: nat) div 16 \<and> (of_char c :: nat) div 16 \<le> 11"
    using that by (simp add: utf8_len_continuation)
  show "split_loop s 0 0 [] = Inl e \<longleftrightarrow>
        e = AssertFailed \<and> (\<exists>k\<in>set (char_offsets s 0). length s < k + utf8_len (s ! k))"
    unfolding split_loop_char_offsets [of s 0 0 "[]"] by auto
  show "split_loop s 0 0 [] = Inr (span_from s 0 (char_offsets s 0))"
    if "\<forall>k\<in>set (char_offsets s 0). k + utf8_len (s ! k) \<le> length s"
  proof -
    from that have "\<not> (\<exists>k\<in>set (char_offsets s 0). length s < k + utf8_len (s ! k))"
      by (auto simp: not_less)
    then show ?thesis unfolding split_loop_char_offsets [of s 0 0 "[]"] by simp
  qed
  show "split_loop s 0 0 [] = Inr (map (one_byte_span (length s)) [0..<length s])"
    if "\<forall>b\<in>set s. utf8_len b = 1"
    using split_loop_one_byte [OF that, of 0 "[]"] by simp
  show "byte_fallback vocab s out
          = Inr (out @ map (\<lambda>b. the (token_to_id vocab (snprintf_byte (of_char b)))) s)"
    if "\<forall>b\<in>set s. token_to_id vocab (snprintf_byte (of_char b)) \<noteq> None"
    using that by (rule byte_fallback_all)
qed

theorem utf8_len_total_and_split_by_lead_byte_witness:
  "utf8_len (CHR 0x80) = 1
   \<and> split_loop [CHR 0x80] 0 0 [] = Inr [one_byte_span 1 0]
   \<and> split_loop [CHR 0xE2] 0 0 [] = Inl AssertFailed
   \<and> char_offsets [CHR 0xE2, CHR ''a'', CHR 0xC3] 0 = [0]
   \<and> split_loop [CHR 0xE2, CHR ''a'', CHR 0xC3] 0 0 []
        = Inr [\<lparr>sym_prev = -1, sym_next = -1, sym_text = 0, sym_n = 3\<rparr>]
   \<and> byte_fallback vocab_bytes [CHR 0x80] [] = Inr [3]
   \<and> spm_tokenize vocab_bytes [CHR 0x80] False False = Some (Inr [3])"
proof -
  let ?m = "[CHR 0xE2, CHR ''a'', CHR 0xC3]"
  have n: "8 \<le> (of_char (CHR 0x80) :: nat) div 16 \<and> (of_char (CHR 0x80) :: nat) div 16 \<le> 11"
    by simp
  have o1: "char_offsets [CHR 0xE2] 0 = [0]" by code_simp
  have u1: "utf8_len (CHR 0xE2) = 3" by code_simp
  have o3: "char_offsets ?m 0 = [0]" by code_simp
  have sf: "span_from ?m 0 [0] = [\<lparr>sym_prev = -1, sym_next = -1, sym_text = 0, sym_n = 3\<rparr>]"
    by (simp add: u1)
  have bt: "token_to_id vocab_bytes (snprintf_byte (of_char (CHR 0x80))) = Some 3" by code_simp
  have t: "spm_tokenize vocab_bytes [CHR 0x80] False False = Some (Inr [3])"
    by code_simp
  note a = utf8_len_total_and_split_by_lead_byte
             [of "CHR 0x80" "[CHR 0x80]" AssertFailed vocab_bytes "[]"]
  note b = utf8_len_total_and_split_by_lead_byte
             [of "CHR 0x80" "[CHR 0xE2]" AssertFailed vocab_bytes "[]"]
  note m = utf8_len_total_and_split_by_lead_byte
             [of "CHR 0x80" ?m AssertFailed vocab_bytes "[]"]
  from a n have l: "utf8_len (CHR 0x80) = 1" by blast
  with a have s1: "split_loop [CHR 0x80] 0 0 [] = Inr [one_byte_span 1 0]" by simp
  from b have s2: "split_loop [CHR 0xE2] 0 0 [] = Inl AssertFailed"
    by (simp add: o1 u1)
  from m have s3: "split_loop ?m 0 0 [] = Inr [\<lparr>sym_prev = -1, sym_next = -1, sym_text = 0, sym_n = 3\<rparr>]"
    by (simp add: o3 u1 sf)
  from a bt have s4: "byte_fallback vocab_bytes [CHR 0x80] [] = Inr [3]" by simp
  from l s1 s2 o3 s3 s4 t show ?thesis by simp
qed

text \<open>
  Claim C10 as stated fails on the malformed text E2 \<open>a\<close> \<open>b\<close>: no length runs past the
  end, the text is accepted, and it is split into one symbol of three bytes, not into
  one-byte symbols.
\<close>

theorem malformed_split_counterexample:
  "utf8_len (CHR 0xE2) = 3 \<and> utf8_len (CHR ''a'') = 1 \<and> utf8_len (CHR ''b'') = 1
   \<and> split_loop [CHR 0xE2, CHR ''a'', CHR ''b''] 0 0 []
        = Inr [\<lparr>sym_prev = -1, sym_next = -1, sym_text = 0, sym_n = 3\<rparr>]
   \<and> split_loop [CHR 0xE2, CHR ''a'', CHR ''b''] 0 0 []
        \<noteq> Inr (map (one_byte_span 3) [0..<3])"
  by code_simp


section \<open>White-space escaping\<close>

lemma escape_loop_eq:
  "offs \<le> length s \<Longrightarrow> escape_loop s offs result = result @ escape_spaces (drop offs s)"
proof (induction "length s - offs" arbitrary: offs result)
  case 0
  then show ?case by (subst escape_loop.simps) (simp add: escape_spaces_def)
next
  case (Suc d)
  then have lt: "offs < length s" by simp
  have dr: "drop offs s = s ! offs # drop (Suc offs) s"
    using lt by (simp add: Cons_nth_drop_Suc)
  have ih: "escape_loop s (Suc offs) r = r @ escape_spaces (drop (Suc offs) s)" for r
    using Suc.hyps(2) lt by (intro Suc.hyps(1)) simp_all
  show ?case
    using lt by (subst escape_loop.simps) (simp add: ih dr escape_spaces_def)
qed

text \<open>
  Claim C5, as the code has it. When escaping is requested, the text that is tokenized is
  the 3-byte marker followed by the input with every space replaced by the marker and
  every other byte unchanged: \<open>get_llama_escape_whitespac\<close> starts its result with one
  marker.
\<close>

theorem escape_prepends_marker:
  "get_llama_escape_whitespac raw_text = ws_marker @ escape_spaces raw_text
   \<and> (raw_text \<noteq> [] \<and> vtype vocab = LLAMA_VOCAB_TYPE_SPM \<longrightarrow>
        spm_tokenize vocab raw_text bos True
          = tokenize vocab (ws_marker @ escape_spaces raw_text)
              (if bos then [special_bos_id vocab] else []))"
  by (simp add: get_llama_escape_whitespac_def escape_loop_eq spm_tokenize_def)

theorem escape_prepends_marker_witness:
  "get_llama_escape_whitespac ''a b'' = ws_marker @ ''a'' @ ws_marker @ ''b''
   \<and> spm_tokenize vocab_bytes ''a b'' False True
        = tokenize vocab_bytes (ws_marker @ ''a'' @ ws_marker @ ''b'') []"
proof -
  have "''a b'' \<noteq> [] \<and> vtype vocab_bytes = LLAMA_VOCAB_TYPE_SPM"
    by (simp add: vocab_bytes_def mk_vocab_def)
  with escape_prepends_marker [of "''a b''" vocab_bytes False]
  show ?thesis by (simp add: escape_spaces_def)
qed

text \<open>
  Claim C5 as stated fails at the input \<open>a\<close>: the escaped text is the marker and \<open>a\<close>, not
  \<open>a\<close>; with escaping the one token is the vocabulary entry for marker and \<open>a\<close>, without it
  the byte \<open>a\<close> has no token.
\<close>

theorem escape_no_other_change_counterexample:
  "get_llama_escape_whitespac ''a'' = [CHR 0xE2, CHR 0x96, CHR 0x81, CHR ''a'']
   \<and> get_llama_escape_whitespac ''a'' \<noteq> escape_spaces ''a''
   \<and> spm_tokenize vocab_bytes ''a'' False True = Some (Inr [5])
   \<and> spm_tokenize vocab_bytes ''a'' False False = Some (Inl OutOfRange)"
  by code_simp

section \<open>Byte fallback\<close>

lemma hex_digits_table:
  "\<forall>d\<in>set [0..<16]. hex_digit_val (hex_upper d) = Some (int d) \<and> \<not> isspace (hex_upper d)
      \<and> hex_upper d \<noteq> CHR ''-'' \<and> hex_upper d \<noteq> CHR ''+''"
  by code_simp

lemma hex_digit:
  assumes "d < 16"
  shows "hex_digit_val (hex_upper d) = Some (int d)" "\<not> isspace (hex_upper d)"
    "hex_upper d \<noteq> CHR ''-''" "hex_upper d \<noteq> CHR ''+''"
proof -
  from assms have "d \<in> set [0..<16]" by (simp only: set_upt atLeastLessThan_iff) simp
  with hex_digits_table show "hex_digit_val (hex_upper d) = Some (int d)" "\<not> isspace (hex_upper d)"
    "hex_upper d \<noteq> CHR ''-''" "hex_upper d \<noteq> CHR ''+''" by blast+
qed

lemma strtol16_two_digits:
  assumes "a < 16" "b < 16"
  shows "strtol16 [hex_upper a, hex_upper b] = 16 * int a + int b"
  using hex_digit [OF assms(1)] hex_digit [OF assms(2)]
  by (simp add: strtol16_def strtol_prefix_def)

lemma strtol16_snprintf_byte:
  "strtol16 (take 2 (drop 3 (snprintf_byte ch))) = uint ch"
proof -
  have lt: "unat ch div 16 < 16"
    by (rule less_mult_imp_div_less) (use unsigned_less [of ch, where ?'a = nat] in simp)
  have "strtol16 (take 2 (drop 3 (snprintf_byte ch))) = 16 * int (unat ch div 16) + int (unat ch mod 16)"
    using strtol16_two_digits [OF lt, of "unat ch mod 16"] by (simp add: snprintf_byte_def)
  also have "\<dots> = int (unat ch)"
    by (simp add: zdiv_int zmod_int)
  finally show ?thesis by simp
qed

text \<open>
  Claim C6. For every byte \<open>b\<close>: when the vocabulary maps the text \<open><0xHH>\<close> of \<open>b\<close> to an
  id in range whose entry has that text and the type byte, \<open>llama_byte_to_token\<close> gives
  that id and \<open>llama_token_to_byte\<close> gives back \<open>b\<close>.
\<close>

theorem byte_token_roundtrip:
  assumes "token_to_id vocab (snprintf_byte b) = Some i"
    and "0 \<le> i" and "i < int (length (id_to_token vocab))"
    and "tok_text (id_to_token vocab ! nat i) = snprintf_byte b"
    and "tok_type (id_to_token vocab ! nat i) = LLAMA_TOKEN_TYPE_BYTE"
  shows "llama_byte_to_token vocab b = Inr i \<and> llama_token_to_byte vocab i = Inr b"
proof -
  have "length (snprintf_byte b) = 6" by (simp add: snprintf_byte_def)
  then have enc: "llama_byte_to_token vocab b = Inr i"
    using assms(1) by (simp add: llama_byte_to_token_def GGML_ASSERT_def Let_def)
  have dec: "llama_token_to_byte vocab i = Inr b"
    using assms(2-5) \<open>length (snprintf_byte b) = 6\<close>
    by (simp add: llama_token_to_byte_def llama_is_byte_token_def id_to_token_at_def
        GGML_ASSERT_def substr_def strtol16_snprintf_byte)
  from enc dec show ?thesis by simp
qed

theorem byte_token_roundtrip_witness:
  "llama_byte_to_token vocab_bytes 0x80 = Inr 3 \<and> llama_token_to_byte vocab_bytes 3 = Inr 0x80"
proof -
  have "token_to_id vocab_bytes (snprintf_byte 0x80) = Some 3" by code_simp
  moreover have "(0::int) \<le> 3" by simp
  moreover have "3 < int (length (id_to_token vocab_bytes))" by code_simp
  moreover have "tok_text (id_to_token vocab_bytes ! nat 3) = snprintf_byte 0x80" by code_simp
  moreover have "tok_type (id_to_token vocab_bytes ! nat 3) = LLAMA_TOKEN_TYPE_BYTE" by code_simp
  ultimately show ?thesis by (rule byte_token_roundtrip)
qed


section \<open>The order of the work queue\<close>

lemma comparator_trans:
  "\<not> comparator b a \<Longrightarrow> \<not> comparator c b \<Longrightarrow> \<not> comparator c a"
  by (auto simp: comparator_def)

lemma comparator_total: "comparator a b \<Longrightarrow> \<not> comparator b a"
  by (auto simp: comparator_def)

lemma pq_best_max: "\<forall>c\<in>set (b # xs). \<not> comparator (pq_best b xs) c"
proof (induction xs arbitrary: b)
  case Nil
  then show ?case by (simp add: comparator_def)
next
  case (Cons x xs)
  let ?b = "if comparator b x then x else b"
  have ih: "\<forall>c\<in>set (?b # xs). \<not> comparator (pq_best ?b xs) c"
    by (rule Cons.IH)
  then have m: "\<not> comparator (pq_best ?b xs) ?b"
    by simp
  have bb: "\<not> comparator ?b b" "\<not> comparator ?b x"
    by (auto simp: comparator_def)
  show ?case
  proof
    fix c assume "c \<in> set (b # x # xs)"
    then consider "c = b" | "c = x" | "c \<in> set xs" by auto
    then show "\<not> comparator (pq_best b (x # xs)) c"
    proof cases
      case 1
      then show ?thesis using comparator_trans [OF bb(1) m] by simp
    next
      case 2
      then show ?thesis using comparator_trans [OF bb(2) m] by simp
    next
      case 3
      then show ?thesis using ih by simp
    qed
  qed
qed

text \<open>
  Claim C1, as the code has it. The candidate that the merge loop pops is in the queue, no
  candidate of the queue has a higher score, and among the candidates of its score none
  has a smaller left index: on equal scores the candidate further left is popped and
  merged first.
\<close>

theorem top_is_highest_score_then_smallest_left:
  assumes "work_queue st \<noteq> []"
  shows "pq_top (work_queue st) \<in> set (work_queue st)
    \<and> (\<forall>c\<in>set (work_queue st).
          bg_score c \<le> bg_score (pq_top (work_queue st))
          \<and> (bg_score c = bg_score (pq_top (work_queue st)) \<longrightarrow>
                bg_left (pq_top (work_queue st)) \<le> bg_left c))
    \<and> merge_step vocab str st
        = merge_bigram vocab str (st\<lparr>work_queue := pq_pop (work_queue st)\<rparr>) (pq_top (work_queue st))"
proof -
  obtain b xs where q: "work_queue st = b # xs"
    using assms by (cases "work_queue st") auto
  have "\<not> comparator (pq_top (work_queue st)) c" if "c \<in> set (work_queue st)" for c
    using pq_best_max [of b xs] that by (auto simp: q pq_top_def)
  then have "\<forall>c\<in>set (work_queue st).
          bg_score c \<le> bg_score (pq_top (work_queue st))
          \<and> (bg_score c = bg_score (pq_top (work_queue st)) \<longrightarrow>
                bg_left (pq_top (work_queue st)) \<le> bg_left c)"
    by (auto simp: comparator_def not_less)
  moreover have "pq_top (work_queue st) \<in> set (work_queue st)"
    using assms by (rule pq_top_in)
  ultimately show ?thesis by (simp add: merge_step_def)
qed

theorem top_is_highest_score_then_smallest_left_witness:
  "pq_top (work_queue st_abc) \<in> set (work_queue st_abc)
   \<and> bg_score \<lparr>bg_left = 1, bg_right = 2, bg_score = 2, bg_size = 2\<rparr>
        = bg_score (pq_top (work_queue st_abc))
   \<and> bg_left (pq_top (work_queue st_abc)) \<le> 1"
proof -
  let ?c = "\<lparr>bg_left = 1, bg_right = 2, bg_score = 2, bg_size = 2\<rparr>"
  have q: "work_queue st_abc \<noteq> []" by (simp add: st_abc_def)
  have c: "?c \<in> set (work_queue st_abc)" by (simp add: st_abc_def)
  have e: "bg_score ?c = bg_score (pq_top (work_queue st_abc))"
    by (simp add: st_abc_def pq_top_def comparator_def)
  from top_is_highest_score_then_smallest_left [OF q, of vocab_abc "''abc''"] c e
  have "pq_top (work_queue st_abc) \<in> set (work_queue st_abc)"
    and "bg_left (pq_top (work_queue st_abc)) \<le> bg_left ?c"
    by blast+
  with e show ?thesis by simp
qed

text \<open>
  Claim C1 as stated fails on the text \<open>abc\<close> with \<open>ab\<close> and \<open>bc\<close> of equal score: both
  candidates are in the queue, the one with left index 0 is on top, and the result is
  \<open>ab\<close>, \<open>c\<close> (ids 3, 2), not \<open>a\<close>, \<open>bc\<close>.
\<close>

theorem larger_left_first_counterexample:
  "split_loop ''abc'' 0 0 [] = Inr (symbols st_abc)
   \<and> map_sum id work_queue
        (seed_loop vocab_abc ''abc'' \<lparr>symbols = symbols st_abc, work_queue = [], rev_merge = Map.empty\<rparr> 1)
       = Inr [\<lparr>bg_left = 0, bg_right = 1, bg_score = 2, bg_size = 2\<rparr>,
              \<lparr>bg_left = 1, bg_right = 2, bg_score = 2, bg_size = 2\<rparr>]
   \<and> pq_top [\<lparr>bg_left = 0, bg_right = 1, bg_score = 2, bg_size = 2\<rparr>,
              \<lparr>bg_left = 1, bg_right = 2, bg_score = 2, bg_size = 2\<rparr>]
       = \<lparr>bg_left = 0, bg_right = 1, bg_score = 2, bg_size = 2\<rparr>
   \<and> spm_tokenize vocab_abc ''abc'' False False = Some (Inr [3, 2])"
  by code_simp

section \<open>The two scenarios on the text \<open>ab\<close>\<close>

lemma split_ab: "split_loop ''ab'' 0 0 [] = Inr [one_byte_span 2 0, one_byte_span 2 1]"
  by code_simp

lemmas tok_unfold = seed_loop.simps merge_loop.simps resegment_loop.simps resegment.simps
  try_add_bigram_def symbol_at_def read_bytes_def merge_step_def merge_bigram_def
  pq_top_def pq_pop_def pq_push_def one_byte_span_def Let_def

lemma tokenize_ab_merged:
  assumes "token_to_id vocab ''ab'' = Some k" "0 \<le> k" "k < int (length (id_to_token vocab))"
  shows "tokenize vocab ''ab'' out = Some (Inr (out @ [k]))"
  using assms by (simp add: tokenize_def split_ab tok_unfold)

lemma tokenize_ab_apart:
  assumes "token_to_id vocab ''ab'' = None" "token_to_id vocab ''a'' = Some i"
    "token_to_id vocab ''b'' = Some j"
  shows "tokenize vocab ''ab'' out = Some (Inr (out @ [i, j]))"
  using assms by (simp add: tokenize_def split_ab tok_unfold)

text \<open>
  Claim C3. For a SentencePiece vocabulary that has \<open>ab\<close> with an id in range, the text
  \<open>ab\<close> (no bos, no escaping) gives exactly the id of \<open>ab\<close>; for one that has \<open>a\<close> and
  \<open>b\<close> but not \<open>ab\<close> it gives the id of \<open>a\<close> and then that of \<open>b\<close>.
\<close>

theorem tokenize_ab_scenarios:
  "(vtype vocab = LLAMA_VOCAB_TYPE_SPM \<and> token_to_id vocab ''ab'' = Some k
      \<and> 0 \<le> k \<and> k < int (length (id_to_token vocab))
      \<longrightarrow> spm_tokenize vocab ''ab'' False False = Some (Inr [k]))
   \<and> (vtype vocab = LLAMA_VOCAB_TYPE_SPM \<and> token_to_id vocab ''ab'' = None
      \<and> token_to_id vocab ''a'' = Some i \<and> token_to_id vocab ''b'' = Some j
      \<longrightarrow> spm_tokenize vocab ''ab'' False False = Some (Inr [i, j]))"
  by (simp add: spm_tokenize_def tokenize_ab_merged tokenize_ab_apart)

theorem tokenize_ab_scenarios_witness:
  "spm_tokenize vocab_ab ''ab'' False False = Some (Inr [2])
   \<and> spm_tokenize vocab_a_b ''ab'' False False = Some (Inr [0, 1])"
proof -
  have 1: "vtype vocab_ab = LLAMA_VOCAB_TYPE_SPM \<and> token_to_id vocab_ab ''ab'' = Some 2
      \<and> (0::int) \<le> 2 \<and> 2 < int (length (id_to_token vocab_ab))"
    by code_simp
  have 2: "vtype vocab_a_b = LLAMA_VOCAB_TYPE_SPM \<and> token_to_id vocab_a_b ''ab'' = None
      \<and> token_to_id vocab_a_b ''a'' = Some 0 \<and> token_to_id vocab_a_b ''b'' = Some 1"
    by code_simp
  from tokenize_ab_scenarios [of vocab_ab 2] 1
  have "spm_tokenize vocab_ab ''ab'' False False = Some (Inr [2])" by blast
  moreover from tokenize_ab_scenarios [of vocab_a_b _ 0 1] 2
  have "spm_tokenize vocab_a_b ''ab'' False False = Some (Inr [0, 1])" by blast
  ultimately show ?thesis by simp
qed


section \<open>Token to text\<close>

lemma find_str_None:
  "find_str s search pos = None \<Longrightarrow> pos \<le> k \<Longrightarrow> k + length search \<le> length s \<Longrightarrow>
   take (length search) (drop k s) \<noteq> search"
proof (induction s search pos rule: find_str.induct)
  case (1 s search pos)
  from "1.prems" have a: "\<not> length s < pos + length search" by simp
  from "1.prems"(1) a have b: "take (length search) (drop pos s) \<noteq> search"
    by (subst (asm) find_str.simps) (simp split: if_splits)
  from "1.prems"(1) a b have c: "find_str s search (pos + 1) = None"
    by (subst (asm) find_str.simps) simp
  show ?case
  proof (cases "k = pos")
    case True
    with b show ?thesis by simp
  next
    case False
    with "1.prems" have "pos + 1 \<le> k" by simp
    from "1.IH" [OF a b c this "1.prems"(3)] show ?thesis .
  qed
qed

lemma find_str_Some:
  "find_str s search pos = Some k \<Longrightarrow>
   pos \<le> k \<and> k + length search \<le> length s \<and> take (length search) (drop k s) = search
   \<and> (\<forall>j. pos \<le> j \<and> j < k \<longrightarrow> take (length search) (drop j s) \<noteq> search)"
proof (induction s search pos rule: find_str.induct)
  case (1 s search pos)
  from "1.prems" have a: "\<not> length s < pos + length search"
    by (subst (asm) find_str.simps) (simp split: if_splits)
  show ?case
  proof (cases "take (length search) (drop pos s) = search")
    case True
    with "1.prems" a have "k = pos"
      by (subst (asm) find_str.simps) simp
    with True a show ?thesis by auto
  next
    case False
    with "1.prems" a have c: "find_str s search (pos + 1) = Some k"
      by (subst (asm) find_str.simps) simp
    from "1.IH" [OF a False c]
    have ih: "pos + 1 \<le> k" "k + length search \<le> length s"
      "take (length search) (drop k s) = search"
      "\<forall>j. pos + 1 \<le> j \<and> j < k \<longrightarrow> take (length search) (drop j s) \<noteq> search"
      by simp_all
    have "take (length search) (drop j s) \<noteq> search" if "pos \<le> j" "j < k" for j
    proof (cases "j = pos")
      case True
      with False show ?thesis by simp
    next
      case ne: False
      with that have "pos + 1 \<le> j" by simp
      with ih(4) that show ?thesis by blast
    qed
    with ih show ?thesis by simp

  qed
qed

lemma unescape_marker_skip:
  "pos \<le> k \<Longrightarrow> k \<le> length s \<Longrightarrow>
   (\<forall>j. pos \<le> j \<and> j < k \<longrightarrow> take 3 (drop j s) \<noteq> ws_marker) \<Longrightarrow>
   unescape_marker (drop pos s) = take (k - pos) (drop pos s) @ unescape_marker (drop k s)"
proof (induction "k - pos" arbitrary: pos)
  case 0
  then show ?case by simp
next
  case (Suc d)
  then have lt: "pos < k" "pos < length s" by simp_all
  have dr: "drop pos s = s ! pos # drop (Suc pos) s"
    using lt by (simp add: Cons_nth_drop_Suc)
  have nm: "take 3 (drop pos s) \<noteq> ws_marker"
    using Suc.prems(3) lt by simp
  have ih: "unescape_marker (drop (Suc pos) s)
              = take (k - Suc pos) (drop (Suc pos) s) @ unescape_marker (drop k s)"
    using Suc.hyps(2) Suc.prems lt by (intro Suc.hyps(1)) simp_all
  have "unescape_marker (drop pos s) = s ! pos # unescape_marker (drop (Suc pos) s)"
    using nm unfolding dr by (simp add: ws_marker_def)
  also have "\<dots> = take (k - pos) (drop pos s) @ unescape_marker (drop k s)"
    unfolding ih dr using lt by (simp add: take_Cons')
  finally show ?case .
qed

lemma unescape_marker_hit:
  assumes "k + 3 \<le> length s" "take 3 (drop k s) = ws_marker"
  shows "unescape_marker (drop k s) = CHR '' '' # unescape_marker (drop (k + 3) s)"
proof -
  have dr: "drop k s = s ! k # drop (Suc k) s"
    using assms(1) by (simp add: Cons_nth_drop_Suc)
  have "k + 3 = Suc (Suc (Suc k))" by simp
  then have "drop 2 (drop (Suc k) s) = drop (k + 3) s"
    by (simp only: drop_drop) simp
  with assms(2) show ?thesis
    unfolding dr by (simp add: ws_marker_def)
qed

lemma unescape_marker_none:
  "(\<forall>j. pos \<le> j \<and> j + 3 \<le> length s \<longrightarrow> take 3 (drop j s) \<noteq> ws_marker) \<Longrightarrow>
   unescape_marker (drop pos s) = drop pos s"
proof (induction "length s - pos" arbitrary: pos)
  case 0
  then show ?case by simp
next
  case (Suc d)
  then have lt: "pos < length s" by simp
  have dr: "drop pos s = s ! pos # drop (Suc pos) s"
    using lt by (simp add: Cons_nth_drop_Suc)
  have nm: "take 3 (drop pos s) \<noteq> ws_marker"
  proof (cases "pos + 3 \<le> length s")
    case True
    with Suc.prems show ?thesis by simp
  next
    case False
    show ?thesis
    proof
      assume e: "take 3 (drop pos s) = ws_marker"
      have "length (take 3 (drop pos s)) = 3"
        unfolding e by (simp add: ws_marker_def)
      with False show False by simp
    qed
  qed
  have ih: "unescape_marker (drop (Suc pos) s) = drop (Suc pos) s"
    using Suc.hyps(2) Suc.prems lt by (intro Suc.hyps(1)) simp_all
  show ?case
    using nm unfolding dr by (simp add: ws_marker_def ih [unfolded dr])
qed

lemma replace_all_loop_marker:
  "pos \<le> length s \<Longrightarrow>
   replace_all_loop s ws_marker '' '' pos result
     = Some (Inr (result @ unescape_marker (drop pos s)))"
proof (induction "length s - pos" arbitrary: pos result rule: less_induct)
  case less
  have len: "length ws_marker = 3" by (simp add: ws_marker_def)
  show ?case
  proof (cases "find_str s ws_marker pos")
    case None
    have "\<forall>j. pos \<le> j \<and> j + 3 \<le> length s \<longrightarrow> take 3 (drop j s) \<noteq> ws_marker"
      using find_str_None [OF None] len by simp
    then have "unescape_marker (drop pos s) = drop pos s"
      by (rule unescape_marker_none)
    then show ?thesis
      using None less.prems by (subst replace_all_loop.simps) (simp add: substr_def)
  next
    case (Some k)
    from find_str_Some [OF Some] len
    have k: "pos \<le> k" "k + 3 \<le> length s" "take 3 (drop k s) = ws_marker"
      "\<forall>j. pos \<le> j \<and> j < k \<longrightarrow> take 3 (drop j s) \<noteq> ws_marker"
      by simp_all
    have dec: "length s - (k + 3) < length s - pos" using k by arith
    have ih: "replace_all_loop s ws_marker '' '' (k + 3) r
                = Some (Inr (r @ unescape_marker (drop (k + 3) s)))" for r
      using less.hyps [OF dec] k by simp
    have "unescape_marker (drop pos s)
            = take (k - pos) (drop pos s) @ CHR '' '' # unescape_marker (drop (k + 3) s)"
      using unescape_marker_skip [of pos k s] unescape_marker_hit [of k s] k by simp
    then show ?thesis
      using Some less.prems k
      by (subst replace_all_loop.simps) (simp add: substr_def len ih)
  qed
qed

lemma llama_unescape_whitespace_eq:
  "llama_unescape_whitespace word = Some (Inr (unescape_marker word))"
  using replace_all_loop_marker [of 0 word "[]"]
  by (simp add: llama_unescape_whitespace_def replace_all_def)

lemma token_to_str_normal:
  assumes "0 \<le> token" and "token < int (length (id_to_token vocab))"
    and "tok_type (id_to_token vocab ! nat token) = LLAMA_TOKEN_TYPE_NORMAL"
    and "r = (if vtype vocab = LLAMA_VOCAB_TYPE_SPM
              then unescape_marker (tok_text (id_to_token vocab ! nat token))
              else tok_text (id_to_token vocab ! nat token))"
  shows "llama_token_to_str vocab token buf len =
     (if len < int (length r) then Some (Inr (- int (length r), buf))
      else Some (Inr (int (length r), r @ drop (length r) buf)))"
  using assms
  by (simp add: llama_token_to_str_def llama_is_normal_token_def id_to_token_at_def
      llama_vocab_get_type_def llama_unescape_whitespace_eq)

text \<open>
  Claim C9, as the code has it. For every id in range the text that \<open>llama_token_to_text\<close>
  returns is fixed by the type of the token: a normal token gives its stored text, with
  each marker replaced by a space when the vocabulary is of the SentencePiece type; an
  unknown token gives the three bytes E2 96 85; a control token gives nothing; a byte
  token whose stored text has at least three characters gives the one byte that
  \<open>strtol\<close> reads from characters 3 and 4, and fails with \<open>std::out_of_range\<close> when the
  text is shorter; every other type gives nothing.
\<close>

theorem token_to_text_by_type:
  assumes "0 \<le> token" and "token < int (length (id_to_token vocab))"
  shows "llama_token_to_text vocab token =
    (let td = id_to_token vocab ! nat token in
     case tok_type td of
       LLAMA_TOKEN_TYPE_NORMAL \<Rightarrow>
         Some (Inr (if vtype vocab = LLAMA_VOCAB_TYPE_SPM then unescape_marker (tok_text td)
                    else tok_text td))
     | LLAMA_TOKEN_TYPE_UNKNOWN \<Rightarrow> Some (Inr [CHR 0xE2, CHR 0x96, CHR 0x85])
     | LLAMA_TOKEN_TYPE_CONTROL \<Rightarrow> Some (Inr [])
     | LLAMA_TOKEN_TYPE_BYTE \<Rightarrow>
         (if length (tok_text td) < 3 then Some (Inl OutOfRange)
          else Some (Inr [char_of (unat (word_of_int (strtol16 (take 2 (drop 3 (tok_text td)))) :: 8 word))]))
     | _ \<Rightarrow> Some (Inr []))"
proof (cases "tok_type (id_to_token vocab ! nat token)")
  case LLAMA_TOKEN_TYPE_NORMAL
  define r where "r = (if vtype vocab = LLAMA_VOCAB_TYPE_SPM
            then unescape_marker (tok_text (id_to_token vocab ! nat token))
            else tok_text (id_to_token vocab ! nat token))"
  note str = token_to_str_normal [OF assms LLAMA_TOKEN_TYPE_NORMAL r_def]
  have "llama_token_to_text vocab token = Some (Inr r)"
  proof (cases "length r \<le> 8")
    case True
    then show ?thesis
      unfolding llama_token_to_text_def str by (simp add: resize_def Let_def)
  next
    case False
    then show ?thesis
      unfolding llama_token_to_text_def str by (simp add: resize_def GGML_ASSERT_def Let_def)
  qed
  then show ?thesis using LLAMA_TOKEN_TYPE_NORMAL by (simp add: Let_def r_def)
next
  case LLAMA_TOKEN_TYPE_UNKNOWN
  then show ?thesis using assms
    by (simp add: llama_token_to_text_def llama_token_to_str_def llama_is_normal_token_def
        llama_is_unknown_token_def id_to_token_at_def Let_def resize_def)
next
  case LLAMA_TOKEN_TYPE_CONTROL
  then show ?thesis using assms
    by (simp add: llama_token_to_text_def llama_token_to_str_def llama_is_normal_token_def
        llama_is_unknown_token_def llama_is_control_token_def id_to_token_at_def Let_def resize_def)
next
  case LLAMA_TOKEN_TYPE_BYTE
  then show ?thesis using assms
    by (simp add: llama_token_to_text_def llama_token_to_str_def llama_is_normal_token_def
        llama_is_unknown_token_def llama_is_control_token_def llama_is_byte_token_def
        llama_token_to_byte_def GGML_ASSERT_def substr_def
        id_to_token_at_def Let_def resize_def)
next
  case LLAMA_TOKEN_TYPE_UNDEFINED
  then show ?thesis using assms
    by (simp add: llama_token_to_text_def llama_token_to_str_def llama_is_normal_token_def
        llama_is_unknown_token_def llama_is_control_token_def llama_is_byte_token_def
        id_to_token_at_def Let_def resize_def)
next
  case LLAMA_TOKEN_TYPE_USER_DEFINED
  then show ?thesis using assms
    by (simp add: llama_token_to_text_def llama_token_to_str_def llama_is_normal_token_def
        llama_is_unknown_token_def llama_is_control_token_def llama_is_byte_token_def
        id_to_token_at_def Let_def resize_def)
next
  case LLAMA_TOKEN_TYPE_UNUSED
  then show ?thesis using assms
    by (simp add: llama_token_to_text_def llama_token_to_str_def llama_is_normal_token_def
        llama_is_unknown_token_def llama_is_control_token_def llama_is_byte_token_def
        id_to_token_at_def Let_def resize_def)
qed

theorem token_to_text_by_type_witness:
  "llama_token_to_text vocab_bytes 5 = Some (Inr '' a'')
   \<and> llama_token_to_text vocab_bytes 0 = Some (Inr [CHR 0xE2, CHR 0x96, CHR 0x85])
   \<and> llama_token_to_text vocab_bytes 1 = Some (Inr [])
   \<and> llama_token_to_text vocab_bytes 4 = Some (Inr ''A'')"
proof -
  have r: "(0::int) \<le> 5 \<and> 5 < int (length (id_to_token vocab_bytes))
     \<and> (0::int) \<le> 0 \<and> 0 < int (length (id_to_token vocab_bytes))
     \<and> (0::int) \<le> 1 \<and> 1 < int (length (id_to_token vocab_bytes))
     \<and> (0::int) \<le> 4 \<and> 4 < int (length (id_to_token vocab_bytes))"
    by code_simp
  have 5: "llama_token_to_text vocab_bytes 5 = Some (Inr '' a'')"
    using r by (subst token_to_text_by_type) (simp_all add: vocab_bytes_def mk_vocab_def)
  have 0: "llama_token_to_text vocab_bytes 0 = Some (Inr [CHR 0xE2, CHR 0x96, CHR 0x85])"
    using r by (subst token_to_text_by_type) (simp_all add: vocab_bytes_def mk_vocab_def)
  have 1: "llama_token_to_text vocab_bytes 1 = Some (Inr [])"
    using r by (subst token_to_text_by_type) (simp_all add: vocab_bytes_def mk_vocab_def)
  have c: "char_of (65::nat) = CHR ''A''" by code_simp
  have 4: "llama_token_to_text vocab_bytes 4 = Some (Inr ''A'')"
    using r by (subst token_to_text_by_type)
      (simp_all add: vocab_bytes_def mk_vocab_def strtol16_def strtol_prefix_def hex_digit_val_def isspace_def c)
  from 5 0 1 4 show ?thesis by simp
qed

text \<open>
  Claim C9 as stated fails for a byte token with the stored text \<open>x\<close>: the id is in
  range, the type is byte, and the call ends in \<open>std::out_of_range\<close> with no byte.
\<close>

theorem byte_token_short_text_counterexample:
  "tok_type (id_to_token vocab_short_byte ! 0) = LLAMA_TOKEN_TYPE_BYTE
   \<and> length (id_to_token vocab_short_byte) = 1
   \<and> llama_token_to_text vocab_short_byte 0 = Some (Inl OutOfRange)"
  by code_simp


section \<open>The invariants of the span table\<close>

lemma split_inv_step:
  assumes inv: "split_inv str syms offs" and lt: "offs < length str"
    and ok: "offs + len \<le> length str" and pos: "0 < len"
  shows "split_inv str
           (syms @ [\<lparr>sym_prev = int (length syms) - 1,
                     sym_next = (if offs + len = length str then -1 else int (length syms) + 1),
                     sym_text = offs, sym_n = len\<rparr>]) (offs + len)"
  unfolding split_inv_def
proof (intro conjI allI impI)
  let ?sym = "\<lparr>sym_prev = int (length syms) - 1,
               sym_next = (if offs + len = length str then -1 else int (length syms) + 1),
               sym_text = offs, sym_n = len\<rparr>"
  let ?syms = "syms @ [?sym]"
  show "offs + len \<le> length str" by (rule ok)
  show "offs + len = 0" if "?syms = []" using that by simp
  fix i assume i: "i < length ?syms"
  show "sym_prev (?syms ! i) = int i - 1"
    using inv i by (cases "i < length syms") (auto simp: split_inv_def nth_append)
  show "0 < sym_n (?syms ! i)"
    using inv i pos by (cases "i < length syms") (auto simp: split_inv_def nth_append)
  show "sym_text (?syms ! i) = 0" if "i = 0"
    using inv i that by (cases "syms = []") (auto simp: split_inv_def nth_append)
  show "sym_text (?syms ! i) + sym_n (?syms ! i)
          = (if Suc i < length ?syms then sym_text (?syms ! Suc i) else offs + len)"
  proof (cases "i < length syms")
    case True
    then show ?thesis using inv
      by (cases "Suc i < length syms") (auto simp: split_inv_def nth_append)
  next
    case False
    with i have "i = length syms" by simp
    then show ?thesis by simp
  qed
  show "sym_next (?syms ! i)
          = (if Suc i = length ?syms \<and> offs + len = length str then -1 else int i + 1)"
  proof (cases "i < length syms")
    case True
    then show ?thesis using inv lt
      by (auto simp: split_inv_def nth_append)
  next
    case False
    with i have "i = length syms" by simp
    then show ?thesis by simp
  qed
qed

lemma split_loop_inv:
  "split_inv str syms offs \<Longrightarrow> split_loop str (int (length syms)) offs syms = Inr syms' \<Longrightarrow>
   split_inv str syms' (length str) \<and> (str \<noteq> [] \<longrightarrow> syms' \<noteq> [])"
proof (induction "length str - offs" arbitrary: offs syms rule: less_induct)
  case less
  show ?case
  proof (cases "offs < length str")
    case False
    with less.prems have e: "syms' = syms" "offs = length str"
      by (simp_all add: split_loop_done split_inv_def)
    with less.prems(1) show ?thesis by (auto simp: split_inv_def)
  next
    case True
    let ?len = "utf8_len (str ! offs)"
    have ok: "offs + ?len \<le> length str"
    proof (rule ccontr)
      assume "\<not> ?thesis"
      with True less.prems(2) show False by (simp add: split_loop_overrun)
    qed
    let ?syms = "syms @ [\<lparr>sym_prev = int (length syms) - 1,
                     sym_next = (if offs + ?len = length str then -1 else int (length syms) + 1),
                     sym_text = offs, sym_n = ?len\<rparr>]"
    have inv': "split_inv str ?syms (offs + ?len)"
      using less.prems(1) True ok utf8_len_pos by (rule split_inv_step)
    have dec: "length str - (offs + ?len) < length str - offs"
      using True utf8_len_pos [of "str ! offs"] by arith
    have "split_loop str (int (length ?syms)) (offs + ?len) ?syms = Inr syms'"
      using less.prems(2) by (simp add: split_loop_step [OF True ok] add.commute)
    from less.hyps [OF dec inv' this] show ?thesis .
  qed
qed

lemma split_inv_final:
  assumes "split_inv str syms (length str)" "syms \<noteq> []"
  shows "sym_inv str syms \<and> all_live syms"
proof -
  from assms have f: "\<And>i. i < length syms \<Longrightarrow>
            sym_prev (syms ! i) = int i - 1 \<and> 0 < sym_n (syms ! i)
            \<and> (i = 0 \<longrightarrow> sym_text (syms ! i) = 0)
            \<and> sym_text (syms ! i) + sym_n (syms ! i)
                = (if Suc i < length syms then sym_text (syms ! Suc i) else length str)
            \<and> sym_next (syms ! i) = (if Suc i = length syms then -1 else int i + 1)"
    by (simp add: split_inv_def)
  have live: "all_live syms" using f by (simp add: all_live_def)
  have p: "prev_ok syms i" if "i < length syms" for i
  proof (cases i)
    case 0
    with f [OF that] show ?thesis by (simp add: prev_ok_def)
  next
    case (Suc p)
    with that have "p < length syms" by simp
    from f [OF this] f [OF that] Suc that show ?thesis
      by (auto simp: prev_ok_def intro!: exI [of _ p])
  qed
  have n: "next_ok str syms i" if "i < length syms" for i
  proof (cases "Suc i = length syms")
    case True
    with f [OF that] show ?thesis by (auto simp: next_ok_def)
  next
    case False
    with that have s: "Suc i < length syms" by simp
    from f [OF this] f [OF that] s show ?thesis
      by (auto simp: next_ok_def intro!: exI [of _ "Suc i"])
  qed
  have b: "sym_text (syms ! i) + sym_n (syms ! i) \<le> length str" if "i < length syms" for i
    using that
  proof (induction "length syms - i" arbitrary: i)
    case 0
    then show ?case by simp
  next
    case (Suc d)
    show ?case
    proof (cases "Suc i < length syms")
      case True
      have "sym_text (syms ! Suc i) + sym_n (syms ! Suc i) \<le> length str"
        using Suc.hyps(2) True by (intro Suc.hyps(1)) simp_all
      with f [OF Suc.prems] True show ?thesis by simp
    next
      case False
      with f [OF Suc.prems] show ?thesis by simp
    qed
  qed
  from assms(2) have "0 < length syms" by simp
  with f [of 0] p n b live show ?thesis
    by (simp add: sym_inv_def assms(2))
qed

lemma split_loop_sym_inv:
  assumes "str \<noteq> []" "split_loop str 0 0 [] = Inr syms"
  shows "sym_inv str syms \<and> all_live syms"
proof -
  have "split_inv str [] 0" by (simp add: split_inv_def)
  from split_loop_inv [OF this] assms have "split_inv str syms (length str)" "syms \<noteq> []"
    by simp_all
  then show ?thesis by (rule split_inv_final)
qed

lemma filter_upt_dead:
  "(\<And>k. a \<le> k \<Longrightarrow> k < b \<Longrightarrow> \<not> P k) \<Longrightarrow> filter P [a..<b] = []"
  by (simp add: filter_empty_conv)

lemma covers_le: "covers syms is offs e \<Longrightarrow> offs \<le> e"
proof (induction "is" arbitrary: offs)
  case Nil
  then show ?case by simp
next
  case (Cons i "is")
  then have "covers syms is (offs + sym_n (syms ! i)) e" by simp
  from Cons.IH [OF this] show ?case by simp
qed

lemma covers_concat:
  "covers syms is offs e \<Longrightarrow> e \<le> length str \<Longrightarrow>
   concat (map (\<lambda>i. span_text str (syms ! i)) is) = take (e - offs) (drop offs str)"
proof (induction "is" arbitrary: offs)
  case Nil
  then show ?case by simp
next
  case (Cons i "is")
  let ?n = "sym_n (syms ! i)"
  from Cons.prems have c: "sym_text (syms ! i) = offs" "covers syms is (offs + ?n) e"
    by simp_all
  from covers_le [OF c(2)] have le: "offs + ?n \<le> e" .
  have "concat (map (\<lambda>i. span_text str (syms ! i)) (i # is))
          = take ?n (drop offs str) @ take (e - (offs + ?n)) (drop (offs + ?n) str)"
    using Cons.IH [OF c(2) Cons.prems(2)] c(1) by (simp add: span_text_def)
  also have "\<dots> = take (?n + (e - (offs + ?n))) (drop offs str)"
    by (simp add: take_add add.commute)
  also have "?n + (e - (offs + ?n)) = e - offs" using le by simp
  finally show ?case .
qed

lemma chain_from_live:
  assumes inv: "sym_inv str syms"
  shows "i < length syms \<Longrightarrow> 0 < sym_n (syms ! i) \<Longrightarrow> length syms - i \<le> fuel \<Longrightarrow>
    chain_from syms fuel (int i)
      = Some (filter (\<lambda>k. 0 < sym_n (syms ! k)) [i..<length syms])
    \<and> covers syms (filter (\<lambda>k. 0 < sym_n (syms ! k)) [i..<length syms])
         (sym_text (syms ! i)) (length str)"
proof (induction "length syms - i" arbitrary: i fuel rule: less_induct)
  case less
  let ?P = "\<lambda>k. 0 < sym_n (syms ! k)"
  from less.prems obtain f where fuel: "fuel = Suc f" by (cases fuel) auto
  from inv less.prems have nx: "next_ok str syms i" by (simp add: sym_inv_def)
  have hd: "[i..<length syms] = i # [Suc i..<length syms]"
    using less.prems by (simp add: upt_conv_Cons)
  from nx consider
    (last) "sym_next (syms ! i) = -1" "sym_text (syms ! i) + sym_n (syms ! i) = length str"
      "\<forall>k. i < k \<and> k < length syms \<longrightarrow> sym_n (syms ! k) = 0"
  | (link) j where "sym_next (syms ! i) = int j" "i < j" "j < length syms" "0 < sym_n (syms ! j)"
      "sym_text (syms ! j) = sym_text (syms ! i) + sym_n (syms ! i)"
      "\<forall>k. i < k \<and> k < j \<longrightarrow> sym_n (syms ! k) = 0"
    unfolding next_ok_def by blast
  then show ?case
  proof cases
    case last
    have "filter ?P [Suc i..<length syms] = []"
      using last(3) by (intro filter_upt_dead) simp
    then have fl: "filter ?P [i..<length syms] = [i]"
      using less.prems by (simp add: hd)
    have "chain_from syms f (-1) = Some []" by (cases f) simp_all
    then have "chain_from syms fuel (int i) = Some [i]"
      using less.prems last(1) by (simp add: fuel)
    then show ?thesis using last(2) less.prems by (simp add: fl)
  next
    case link
    have dec: "length syms - j < length syms - i" using link less.prems by arith
    have fj: "length syms - j \<le> f" using less.prems link fuel by arith
    from less.hyps [OF dec link(3) link(4) fj]
    have ih: "chain_from syms f (int j) = Some (filter ?P [j..<length syms])"
      "covers syms (filter ?P [j..<length syms]) (sym_text (syms ! j)) (length str)"
      by simp_all
    have "[Suc i..<length syms] = [Suc i..<j] @ [j..<length syms]"
      using upt_add_eq_append [of "Suc i" j "length syms - j"] link by simp
    moreover have "filter ?P [Suc i..<j] = []"
      using link(6) by (intro filter_upt_dead) simp
    ultimately have fl: "filter ?P [i..<length syms] = i # filter ?P [j..<length syms]"
      using less.prems by (simp add: hd)
    have "chain_from syms fuel (int i) = Some (i # filter ?P [j..<length syms])"
      using less.prems link(1) ih(1) by (simp add: fuel)
    then show ?thesis using ih(2) link(5) less.prems by (simp add: fl)
  qed
qed

lemma sym_inv_partition_ok:
  assumes "sym_inv str syms"
  shows "partition_ok str syms"
proof -
  let ?is = "filter (\<lambda>k. 0 < sym_n (syms ! k)) [0..<length syms]"
  from assms have z: "0 < length syms" "0 < sym_n (syms ! 0)" "prev_ok syms 0"
    by (simp_all add: sym_inv_def)
  then have t0: "sym_text (syms ! 0) = 0" by (simp add: prev_ok_def)
  from chain_from_live [OF assms z(1) z(2), of "length syms"] t0
  have c: "chain_from syms (length syms) 0 = Some ?is" "covers syms ?is 0 (length str)"
    by simp_all
  from covers_concat [OF c(2)] have "concat (map (\<lambda>i. span_text str (syms ! i)) ?is) = str"
    by simp
  with c show ?thesis by (simp add: partition_ok_def)
qed

lemma try_add_bigram_cases:
  assumes "try_add_bigram vocab str st left right = Inr st'"
  shows "st' = st
    \<or> (\<exists>text sc. token_to_id vocab text \<noteq> None \<and> left \<noteq> -1 \<and> right \<noteq> -1
          \<and> st' = st\<lparr>work_queue := work_queue st @
                        [\<lparr>bg_left = left, bg_right = right, bg_score = sc, bg_size = length text\<rparr>],
                     rev_merge := (rev_merge st)(text \<mapsto> (left, right))\<rparr>)"
  using assms
  by (auto simp: try_add_bigram_def pq_push_def Let_def
      split: if_splits sum.splits option.splits)

lemma try_add_bigram_inv:
  assumes inv: "tok_inv vocab str st"
    and adj: "adjacent (symbols st) left right"
    and run: "try_add_bigram vocab str st left right = Inr st'"
  shows "tok_inv vocab str st'"
proof -
  from try_add_bigram_cases [OF run] show ?thesis
  proof
    assume "st' = st"
    with inv show ?thesis by simp
  next
    assume "\<exists>text sc. token_to_id vocab text \<noteq> None \<and> left \<noteq> -1 \<and> right \<noteq> -1
          \<and> st' = st\<lparr>work_queue := work_queue st @
                        [\<lparr>bg_left = left, bg_right = right, bg_score = sc, bg_size = length text\<rparr>],
                     rev_merge := (rev_merge st)(text \<mapsto> (left, right))\<rparr>"
    then obtain tx sc where t: "token_to_id vocab tx \<noteq> None"
      and ne: "left \<noteq> -1" "right \<noteq> -1"
      and st': "st' = st\<lparr>work_queue := work_queue st @
                        [\<lparr>bg_left = left, bg_right = right, bg_score = sc, bg_size = length tx\<rparr>],
                     rev_merge := (rev_merge st)(tx \<mapsto> (left, right))\<rparr>"
      by blast
    from ne adj obtain l r where lr: "left = int l" "right = int r" "l < length (symbols st)"
      "r < length (symbols st)"
      "0 < sym_n (symbols st ! l) \<and> 0 < sym_n (symbols st ! r) \<longrightarrow> sym_next (symbols st ! l) = int r"
      unfolding adjacent_def by blast
    have q: "queue_inv (symbols st') (work_queue st')"
      using inv lr unfolding st' tok_inv_def queue_inv_def by auto
    have r: "rev_inv vocab st'"
      using inv t unfolding st' tok_inv_def rev_inv_def by auto
    from inv q r show ?thesis by (simp add: tok_inv_def st')
  qed
qed

lemma prev_ok_frame:
  assumes "prev_ok s0 i"
    and "sym_prev (s4 ! i) = sym_prev (s0 ! i)" and "sym_text (s4 ! i) = sym_text (s0 ! i)"
    and "\<And>p. sym_prev (s0 ! i) = int p \<Longrightarrow> p < i \<Longrightarrow> 0 < sym_n (s0 ! p) \<Longrightarrow>
           sym_next (s0 ! p) = int i \<Longrightarrow> 0 < sym_n (s4 ! p) \<and> sym_next (s4 ! p) = int i"
  shows "prev_ok s4 i"
  using assms unfolding prev_ok_def by (metis)

lemma next_ok_frame:
  assumes "next_ok str s0 i" and "length s4 = length s0"
    and "sym_next (s4 ! i) = sym_next (s0 ! i)"
    and "sym_text (s4 ! i) + sym_n (s4 ! i) = sym_text (s0 ! i) + sym_n (s0 ! i)"
    and "\<And>k. k < length s0 \<Longrightarrow> sym_n (s0 ! k) = 0 \<Longrightarrow> sym_n (s4 ! k) = 0"
    and "\<And>j. sym_next (s0 ! i) = int j \<Longrightarrow> j < length s0 \<Longrightarrow> 0 < sym_n (s0 ! j) \<Longrightarrow>
           sym_prev (s0 ! j) = int i \<Longrightarrow>
           0 < sym_n (s4 ! j) \<and> sym_text (s4 ! j) = sym_text (s0 ! j) \<and> sym_prev (s4 ! j) = int i"
  shows "next_ok str s4 i"
proof -
  from assms(1) consider
    (last) "sym_next (s0 ! i) = -1" "sym_text (s0 ! i) + sym_n (s0 ! i) = length str"
      "\<forall>k. i < k \<and> k < length s0 \<longrightarrow> sym_n (s0 ! k) = 0"
  | (link) j where "sym_next (s0 ! i) = int j" "i < j" "j < length s0" "0 < sym_n (s0 ! j)"
      "sym_text (s0 ! j) = sym_text (s0 ! i) + sym_n (s0 ! i)" "sym_prev (s0 ! j) = int i"
      "\<forall>k. i < k \<and> k < j \<longrightarrow> sym_n (s0 ! k) = 0"
    unfolding next_ok_def by blast
  then show ?thesis
  proof cases
    case last
    have "\<forall>k. i < k \<and> k < length s4 \<longrightarrow> sym_n (s4 ! k) = 0"
      using last(3) assms(2) assms(5) by simp
    with last assms(3,4) show ?thesis unfolding next_ok_def by simp
  next
    case link
    from assms(6) [OF link(1) link(3) link(4) link(6)]
    have j: "0 < sym_n (s4 ! j)" "sym_text (s4 ! j) = sym_text (s0 ! j)" "sym_prev (s4 ! j) = int i"
      by simp_all
    have d: "\<forall>k. i < k \<and> k < j \<longrightarrow> sym_n (s4 ! k) = 0"
      using link(7) link(3) assms(5) by simp
    show ?thesis unfolding next_ok_def
      using link j d assms(2,3,4) by (intro disjI2 exI [of _ j]) simp
  qed
qed

lemma merge_sym_inv:
  assumes inv: "sym_inv str s0"
    and l: "l < length s0" "0 < sym_n (s0 ! l)" and r: "r < length s0" "0 < sym_n (s0 ! r)"
    and nl: "sym_next (s0 ! l) = int r"
    and len: "length s4 = length s0"
    and sl: "s4 ! l = (s0 ! l)\<lparr>sym_n := sym_n (s0 ! l) + sym_n (s0 ! r), sym_next := sym_next (s0 ! r)\<rparr>"
    and sr: "s4 ! r = (s0 ! r)\<lparr>sym_n := 0\<rparr>"
    and sm: "\<And>m. sym_next (s0 ! r) = int m \<Longrightarrow> m < length s0 \<Longrightarrow>
               s4 ! m = (s0 ! m)\<lparr>sym_prev := int l\<rparr>"
    and so: "\<And>i. i < length s0 \<Longrightarrow> i \<noteq> l \<Longrightarrow> i \<noteq> r \<Longrightarrow> sym_next (s0 ! r) \<noteq> int i \<Longrightarrow>
               s4 ! i = s0 ! i"
  shows "sym_inv str s4"
proof -
  from inv have nonempty: "s0 \<noteq> []" and live0: "0 < sym_n (s0 ! 0)"
    and pv: "\<And>i. i < length s0 \<Longrightarrow> 0 < sym_n (s0 ! i) \<Longrightarrow> prev_ok s0 i"
    and nx: "\<And>i. i < length s0 \<Longrightarrow> 0 < sym_n (s0 ! i) \<Longrightarrow> next_ok str s0 i"
    and bd: "\<And>i. i < length s0 \<Longrightarrow> 0 < sym_n (s0 ! i) \<Longrightarrow>
               sym_text (s0 ! i) + sym_n (s0 ! i) \<le> length str"
    by (simp_all add: sym_inv_def)
  from nx [OF l] nl have lr: "l < r" "sym_text (s0 ! r) = sym_text (s0 ! l) + sym_n (s0 ! l)"
    "sym_prev (s0 ! r) = int l" "\<forall>k. l < k \<and> k < r \<longrightarrow> sym_n (s0 ! k) = 0"
    unfolding next_ok_def by auto
  from nx [OF r] have rn:
    "(sym_next (s0 ! r) = -1 \<and> sym_text (s0 ! r) + sym_n (s0 ! r) = length str
        \<and> (\<forall>k. r < k \<and> k < length s0 \<longrightarrow> sym_n (s0 ! k) = 0))
      \<or> (\<exists>m. sym_next (s0 ! r) = int m \<and> r < m \<and> m < length s0 \<and> 0 < sym_n (s0 ! m)
            \<and> sym_text (s0 ! m) = sym_text (s0 ! r) + sym_n (s0 ! r)
            \<and> sym_prev (s0 ! m) = int r
            \<and> (\<forall>k. r < k \<and> k < m \<longrightarrow> sym_n (s0 ! k) = 0))"
    unfolding next_ok_def .
  have far: "r < m" if "sym_next (s0 ! r) = int m" for m
    using rn that by auto
  have g1: "sym_n (s4 ! i) = sym_n (s0 ! i)" if "i < length s0" "i \<noteq> l" "i \<noteq> r" for i
  proof (cases "sym_next (s0 ! r) = int i")
    case True
    from sm [OF True that(1)] show ?thesis by simp
  next
    case False
    from so [OF that False] show ?thesis by simp
  qed
  have g2: "sym_text (s4 ! i) = sym_text (s0 ! i)" if "i < length s0" for i
  proof (cases "i = l \<or> i = r")
    case True
    then show ?thesis using sl sr by auto
  next
    case False
    show ?thesis
    proof (cases "sym_next (s0 ! r) = int i")
      case True
      from sm [OF True that] show ?thesis by simp
    next
      case ne: False
      from so [OF that _ _ ne] False show ?thesis by simp
    qed
  qed
  have g3: "sym_next (s4 ! i) = sym_next (s0 ! i)" if "i < length s0" "i \<noteq> l" for i
  proof (cases "i = r")
    case True
    then show ?thesis using sr by simp
  next
    case False
    show ?thesis
    proof (cases "sym_next (s0 ! r) = int i")
      case True
      from sm [OF True that(1)] show ?thesis by simp
    next
      case ne: False
      from so [OF that(1,2) False ne] show ?thesis by simp
    qed
  qed
  have g4: "sym_prev (s4 ! i) = sym_prev (s0 ! i)"
    if "i < length s0" "sym_next (s0 ! r) \<noteq> int i" for i
  proof (cases "i = l \<or> i = r")
    case True
    then show ?thesis using sl sr by auto
  next
    case False
    from so [OF that(1) _ _ that(2)] False show ?thesis by simp
  qed
  have g5: "sym_prev (s4 ! i) = int l" if "i < length s0" "sym_next (s0 ! r) = int i" for i
    using sm [OF that(2,1)] by simp
  have dead: "sym_n (s4 ! k) = 0" if "k < length s0" "sym_n (s0 ! k) = 0" for k
  proof (cases "k = r")
    case True
    then show ?thesis using sr by simp
  next
    case False
    moreover from that l have "k \<noteq> l" by auto
    ultimately show ?thesis using g1 [OF that(1)] that(2) by simp
  qed
  have livel: "0 < sym_n (s4 ! l)" using sl l by simp
  have nr_l: "sym_next (s0 ! r) \<noteq> int l"
    using far [of l] lr(1) by auto
  have pl: "prev_ok s4 l"
  proof (rule prev_ok_frame [OF pv [OF l]])
    show "sym_prev (s4 ! l) = sym_prev (s0 ! l)" using g4 [OF l(1) nr_l] .
    show "sym_text (s4 ! l) = sym_text (s0 ! l)" using g2 [OF l(1)] .
    fix p assume p: "p < l" "0 < sym_n (s0 ! p)" "sym_next (s0 ! p) = int l"
    then have "p < length s0" "p \<noteq> l" "p \<noteq> r" using l(1) lr(1) by auto
    from g1 [OF this] g3 [OF this(1,2)] p
    show "0 < sym_n (s4 ! p) \<and> sym_next (s4 ! p) = int l" by simp
  qed
  have nxl: "next_ok str s4 l"
    using rn
  proof
    assume a: "sym_next (s0 ! r) = -1 \<and> sym_text (s0 ! r) + sym_n (s0 ! r) = length str
        \<and> (\<forall>k. r < k \<and> k < length s0 \<longrightarrow> sym_n (s0 ! k) = 0)"
    have "sym_n (s4 ! k) = 0" if "l < k" "k < length s4" for k
    proof -
      have "k = r \<or> sym_n (s0 ! k) = 0" using a lr(4) that len
        by (cases "k < r"; cases "k = r") auto
      then show ?thesis using sr dead [of k] that len by auto
    qed
    then show ?thesis unfolding next_ok_def using a sl lr(2) by simp
  next
    assume "\<exists>m. sym_next (s0 ! r) = int m \<and> r < m \<and> m < length s0 \<and> 0 < sym_n (s0 ! m)
            \<and> sym_text (s0 ! m) = sym_text (s0 ! r) + sym_n (s0 ! r)
            \<and> sym_prev (s0 ! m) = int r
            \<and> (\<forall>k. r < k \<and> k < m \<longrightarrow> sym_n (s0 ! k) = 0)"
    then obtain m where m: "sym_next (s0 ! r) = int m" "r < m" "m < length s0" "0 < sym_n (s0 ! m)"
      "sym_text (s0 ! m) = sym_text (s0 ! r) + sym_n (s0 ! r)"
      "\<forall>k. r < k \<and> k < m \<longrightarrow> sym_n (s0 ! k) = 0"
      by blast
    have ml: "m \<noteq> l" "m \<noteq> r" using m(2) lr(1) by auto
    have d: "sym_n (s4 ! k) = 0" if "l < k" "k < m" for k
    proof -
      have "k = r \<or> sym_n (s0 ! k) = 0" using m(6) lr(4) that
        by (cases "k < r"; cases "k = r") auto
      then show ?thesis using sr dead [of k] that m(3) by auto
    qed
    show ?thesis unfolding next_ok_def
      using m(1,2,3,4,5) lr(1,2) sl len g1 [OF m(3) ml] g2 [OF m(3)] g5 [OF m(3) m(1)] d
      by (intro disjI2 exI [of _ m]) simp
  qed
  have bl: "sym_text (s4 ! l) + sym_n (s4 ! l) \<le> length str"
    using sl lr(2) bd [OF r] by simp
  have other: "prev_ok s4 i \<and> next_ok str s4 i \<and> sym_text (s4 ! i) + sym_n (s4 ! i) \<le> length str"
    if i: "i < length s0" "i \<noteq> l" "i \<noteq> r" and li: "0 < sym_n (s4 ! i)" for i
  proof -
    from li g1 [OF i] have l0: "0 < sym_n (s0 ! i)" by simp
    have b: "sym_text (s4 ! i) + sym_n (s4 ! i) \<le> length str"
      using bd [OF i(1) l0] g1 [OF i] g2 [OF i(1)] by simp
    have n: "next_ok str s4 i"
    proof (rule next_ok_frame [OF nx [OF i(1) l0] len])
      show "sym_next (s4 ! i) = sym_next (s0 ! i)" using g3 [OF i(1,2)] .
      show "sym_text (s4 ! i) + sym_n (s4 ! i) = sym_text (s0 ! i) + sym_n (s0 ! i)"
        using g1 [OF i] g2 [OF i(1)] by simp
      show "sym_n (s4 ! k) = 0" if "k < length s0" "sym_n (s0 ! k) = 0" for k
        using dead [OF that] .
      fix j assume j: "sym_next (s0 ! i) = int j" "j < length s0" "0 < sym_n (s0 ! j)"
        "sym_prev (s0 ! j) = int i"
      have jr: "j \<noteq> r" using j(4) lr(3) i(2) by auto
      have lj: "0 < sym_n (s4 ! j)"
        using livel g1 [OF j(2) _ jr] j(3) by (cases "j = l") auto
      have nm: "sym_next (s0 ! r) \<noteq> int j"
      proof
        assume e: "sym_next (s0 ! r) = int j"
        with rn have "sym_prev (s0 ! j) = int r" by auto
        with j(4) i(3) show False by simp
      qed
      from lj g2 [OF j(2)] g4 [OF j(2) nm] j(4)
      show "0 < sym_n (s4 ! j) \<and> sym_text (s4 ! j) = sym_text (s0 ! j) \<and> sym_prev (s4 ! j) = int i"
        by simp
    qed
    have p: "prev_ok s4 i"
    proof (cases "sym_next (s0 ! r) = int i")
      case True
      from far [OF True] lr(1) have "l < i" by simp
      moreover have "sym_next (s4 ! l) = int i" using sl True by simp
      ultimately show ?thesis unfolding prev_ok_def
        using g5 [OF i(1) True] livel by (intro disjI2 exI [of _ l]) simp
    next
      case False
      show ?thesis
      proof (rule prev_ok_frame [OF pv [OF i(1) l0]])
        show "sym_prev (s4 ! i) = sym_prev (s0 ! i)" using g4 [OF i(1) False] .
        show "sym_text (s4 ! i) = sym_text (s0 ! i)" using g2 [OF i(1)] .
        fix p assume p: "p < i" "0 < sym_n (s0 ! p)" "sym_next (s0 ! p) = int i"
        have "p \<noteq> l" using p(3) nl i(3) by auto
        moreover have "p \<noteq> r" using p(3) False by auto
        moreover have "p < length s0" using p(1) i(1) by simp
        ultimately show "0 < sym_n (s4 ! p) \<and> sym_next (s4 ! p) = int i"
          using g1 [of p] g3 [of p] p by simp
      qed
    qed
    from p n b show ?thesis by simp
  qed
  have z: "0 < sym_n (s4 ! 0)"
  proof (cases "l = 0")
    case True
    with livel show ?thesis by simp
  next
    case False
    moreover have "0 \<noteq> r" using lr(1) by simp
    moreover have "0 < length s0" using nonempty by simp
    ultimately show ?thesis using g1 [of 0] live0 by simp
  qed
  have all: "prev_ok s4 i \<and> next_ok str s4 i \<and> sym_text (s4 ! i) + sym_n (s4 ! i) \<le> length str"
    if "i < length s4" "0 < sym_n (s4 ! i)" for i
  proof (cases "i = l")
    case True
    with pl nxl bl show ?thesis by simp
  next
    case False
    moreover have "i \<noteq> r" using that(2) sr by auto
    ultimately show ?thesis using other [of i] that len by simp
  qed
  from nonempty len have "s4 \<noteq> []" by auto
  with z all show ?thesis unfolding sym_inv_def by simp
qed

lemma queue_inv_cand: "queue_inv syms q = (\<forall>b\<in>set q. cand_ok syms b)"
  by (simp add: queue_inv_def cand_ok_def)

lemma merge_bigram_valid:
  assumes "bg_left bigram = int l" "bg_right bigram = int r"
    and "l < length (symbols st)" "r < length (symbols st)"
    and "0 < sym_n (symbols st ! l)" "0 < sym_n (symbols st ! r)"
    and "sym_n (symbols st ! l) + sym_n (symbols st ! r) = bg_size bigram"
    and "s1 = (symbols st)[l := (symbols st ! l)\<lparr>sym_n := sym_n (symbols st ! l) + sym_n (symbols st ! r)\<rparr>]"
    and "s2 = s1[r := (s1 ! r)\<lparr>sym_n := 0\<rparr>]"
    and "s3 = s2[l := (s2 ! l)\<lparr>sym_next := sym_next (s2 ! r)\<rparr>]"
    and "nx = sym_next (s3 ! r)"
    and "s4 = (if 0 \<le> nx then s3[nat nx := (s3 ! nat nx)\<lparr>sym_prev := int l\<rparr>] else s3)"
  shows "merge_bigram vocab str st bigram =
     (if 0 \<le> nx \<and> \<not> nx < int (length s3) then Inl UndefinedBehaviour
      else case try_add_bigram vocab str (st\<lparr>symbols := s4\<rparr>) (sym_prev (s4 ! l)) (int l) of
             Inl e \<Rightarrow> Inl e
           | Inr st2 \<Rightarrow> try_add_bigram vocab str st2 (int l) (sym_next (symbols st2 ! l)))"
proof -
  have c1: "\<not> (\<not> (0 \<le> int l \<and> int l < int (length (symbols st)))
              \<or> \<not> (0 \<le> int r \<and> int r < int (length (symbols st))))"
    using assms(3,4) by simp
  have c2: "\<not> (sym_n (symbols st ! l) = 0 \<or> sym_n (symbols st ! r) = 0
              \<or> sym_n (symbols st ! l) + sym_n (symbols st ! r) \<noteq> bg_size bigram)"
    using assms(5-7) by simp
  show ?thesis
    unfolding merge_bigram_def Let_def assms(1,2) nat_int if_not_P [OF c1] if_not_P [OF c2]
      assms(8) [symmetric] assms(9) [symmetric] assms(10) [symmetric] assms(11) [symmetric]
      assms(12) [symmetric]
    by (rule refl)
qed

lemma merge_bigram_stale:
  assumes "bg_left bigram = int l" "bg_right bigram = int r"
    and "l < length (symbols st)" "r < length (symbols st)"
    and "sym_n (symbols st ! l) = 0 \<or> sym_n (symbols st ! r) = 0
         \<or> sym_n (symbols st ! l) + sym_n (symbols st ! r) \<noteq> bg_size bigram"
  shows "merge_bigram vocab str st bigram = Inr st"
  using assms by (auto simp: merge_bigram_def Let_def)

lemma merge_bigram_inv:
  assumes inv: "tok_inv vocab str st"
    and cand: "cand_ok (symbols st) bigram"
    and run: "merge_bigram vocab str st bigram = Inr st'"
  shows "tok_inv vocab str st'"
proof -
  let ?s0 = "symbols st"
  from cand obtain l r where lr: "bg_left bigram = int l" "bg_right bigram = int r"
    "l < length ?s0" "r < length ?s0"
    "0 < sym_n (?s0 ! l) \<and> 0 < sym_n (?s0 ! r) \<longrightarrow> sym_next (?s0 ! l) = int r"
    unfolding cand_ok_def by blast
  show ?thesis
  proof (cases "sym_n (?s0 ! l) = 0 \<or> sym_n (?s0 ! r) = 0
                 \<or> sym_n (?s0 ! l) + sym_n (?s0 ! r) \<noteq> bg_size bigram")
    case True
    from run merge_bigram_stale [OF lr(1-4) True] have "st' = st"
      by simp
    with inv show ?thesis by simp
  next
    case False
    then have live: "0 < sym_n (?s0 ! l)" "0 < sym_n (?s0 ! r)" by simp_all
    with lr have nl: "sym_next (?s0 ! l) = int r" by simp
    from inv have sinv: "sym_inv str ?s0" and qinv: "queue_inv ?s0 (work_queue st)"
      and rinv: "rev_inv vocab st"
      by (simp_all add: tok_inv_def)
    from sinv lr(3) live(1) nl have lt: "l < r"
      unfolding sym_inv_def next_ok_def by auto
    from sinv lr(4) live(2) have rn: "sym_next (?s0 ! r) = -1
        \<or> (\<exists>m. sym_next (?s0 ! r) = int m \<and> r < m \<and> m < length ?s0)"
      unfolding sym_inv_def next_ok_def by auto
    define s1 where "s1 = ?s0[l := (?s0 ! l)\<lparr>sym_n := sym_n (?s0 ! l) + sym_n (?s0 ! r)\<rparr>]"
    define s2 where "s2 = s1[r := (s1 ! r)\<lparr>sym_n := 0\<rparr>]"
    define s3 where "s3 = s2[l := (s2 ! l)\<lparr>sym_next := sym_next (s2 ! r)\<rparr>]"
    define nx where "nx = sym_next (s3 ! r)"
    define s4 where "s4 = (if 0 \<le> nx
                        then s3[nat nx := (s3 ! nat nx)\<lparr>sym_prev := int l\<rparr>]
                        else s3)"
    from False have sz: "sym_n (?s0 ! l) + sym_n (?s0 ! r) = bg_size bigram" by simp
    note eq = merge_bigram_valid [OF lr(1-4) live sz s1_def s2_def s3_def nx_def s4_def]
    from run obtain st2 where
      t1: "try_add_bigram vocab str (st\<lparr>symbols := s4\<rparr>) (sym_prev (s4 ! l)) (int l) = Inr st2"
      and t2: "try_add_bigram vocab str st2 (int l) (sym_next (symbols st2 ! l)) = Inr st'"
      unfolding eq by (auto split: if_splits sum.splits)
    have s3l: "s3 ! l = (?s0 ! l)\<lparr>sym_n := sym_n (?s0 ! l) + sym_n (?s0 ! r),
                                   sym_next := sym_next (?s0 ! r)\<rparr>"
      using lr(3,4) lt by (simp add: s3_def s2_def s1_def)
    have s3r: "s3 ! r = (?s0 ! r)\<lparr>sym_n := 0\<rparr>"
      using lr(3,4) lt by (simp add: s3_def s2_def s1_def)
    have s3o: "s3 ! i = ?s0 ! i" if "i \<noteq> l" "i \<noteq> r" for i
      using that by (simp add: s3_def s2_def s1_def)
    have len3: "length s3 = length ?s0" by (simp add: s3_def s2_def s1_def)
    have nxr: "nx = sym_next (?s0 ! r)" by (simp add: nx_def s3r)
    have len: "length s4 = length ?s0" by (simp add: s4_def len3)
    have far: "r < m" if "sym_next (?s0 ! r) = int m" for m
      using rn that by auto
    have sl: "s4 ! l = (?s0 ! l)\<lparr>sym_n := sym_n (?s0 ! l) + sym_n (?s0 ! r),
                                  sym_next := sym_next (?s0 ! r)\<rparr>"
    proof (cases "0 \<le> nx")
      case True
      then have "nat nx \<noteq> l" using far [of "nat nx"] lt nxr by auto
      then show ?thesis using True by (simp add: s4_def s3l)
    next
      case False
      then show ?thesis by (simp add: s4_def s3l)
    qed
    have sr: "s4 ! r = (?s0 ! r)\<lparr>sym_n := 0\<rparr>"
    proof (cases "0 \<le> nx")
      case True
      then have "nat nx \<noteq> r" using far [of "nat nx"] nxr by auto
      then show ?thesis using True by (simp add: s4_def s3r)
    next
      case False
      then show ?thesis by (simp add: s4_def s3r)
    qed
    have sm: "s4 ! m = (?s0 ! m)\<lparr>sym_prev := int l\<rparr>"
      if "sym_next (?s0 ! r) = int m" "m < length ?s0" for m
    proof -
      from far [OF that(1)] lt have "m \<noteq> l" "m \<noteq> r" by auto
      then show ?thesis using that by (simp add: s4_def nxr len3 s3o)
    qed
    have so: "s4 ! i = ?s0 ! i"
      if "i < length ?s0" "i \<noteq> l" "i \<noteq> r" "sym_next (?s0 ! r) \<noteq> int i" for i
    proof (cases "0 \<le> nx")
      case True
      then have "nat nx \<noteq> i" using that(4) nxr by auto
      then show ?thesis using True that by (simp add: s4_def s3o)
    next
      case False
      then show ?thesis using that by (simp add: s4_def s3o)
    qed
    have sinv4: "sym_inv str s4"
      using sinv lr(3) live(1) lr(4) live(2) nl len sl sr sm so by (rule merge_sym_inv)
    have n4: "sym_n (s4 ! i) = sym_n (?s0 ! i)" if "i < length ?s0" "i \<noteq> l" "i \<noteq> r" for i
      using sm [OF _ that(1)] so [OF that] by (cases "sym_next (?s0 ! r) = int i") simp_all
    have x4: "sym_next (s4 ! i) = sym_next (?s0 ! i)" if "i < length ?s0" "i \<noteq> l" for i
      using sm [OF _ that(1)] so [OF that] sr
      by (cases "i = r"; cases "sym_next (?s0 ! r) = int i") simp_all
    have qinv4: "queue_inv s4 (work_queue st)"
      unfolding queue_inv_def
    proof
      fix b assume "b \<in> set (work_queue st)"
      with qinv obtain l' r' where b: "bg_left b = int l'" "bg_right b = int r'"
        "l' < length ?s0" "r' < length ?s0"
        "0 < sym_n (?s0 ! l') \<and> 0 < sym_n (?s0 ! r') \<longrightarrow> sym_next (?s0 ! l') = int r'"
        unfolding queue_inv_def by blast
      have "sym_next (s4 ! l') = int r'" if l4: "0 < sym_n (s4 ! l')" "0 < sym_n (s4 ! r')"
      proof -
        have nr: "l' \<noteq> r" "r' \<noteq> r" using l4 sr by auto
        have "0 < sym_n (?s0 ! l')" using l4(1) n4 [OF b(3) _ nr(1)] live(1) by (cases "l' = l") auto
        moreover have "0 < sym_n (?s0 ! r')" using l4(2) n4 [OF b(4) _ nr(2)] live(1) by (cases "r' = l") auto
        ultimately have e: "sym_next (?s0 ! l') = int r'" using b(5) by simp
        with nl nr(2) have "l' \<noteq> l" by auto
        from x4 [OF b(3) this] e show ?thesis by simp
      qed
      with b len show "\<exists>l r. bg_left b = int l \<and> bg_right b = int r
         \<and> l < length s4 \<and> r < length s4
         \<and> (0 < sym_n (s4 ! l) \<and> 0 < sym_n (s4 ! r) \<longrightarrow> sym_next (s4 ! l) = int r)"
        by auto
    qed
    have inv1: "tok_inv vocab str (st\<lparr>symbols := s4\<rparr>)"
      using sinv4 qinv4 rinv by (simp add: tok_inv_def rev_inv_def)
    have ll: "l < length s4" "0 < sym_n (s4 ! l)" using lr(3) len sl live by simp_all
    with sinv4 have pl: "prev_ok s4 l" and nxl: "next_ok str s4 l"
      by (simp_all add: sym_inv_def)
    have adj1: "adjacent (symbols (st\<lparr>symbols := s4\<rparr>)) (sym_prev (s4 ! l)) (int l)"
      using pl ll unfolding prev_ok_def adjacent_def by auto
    from try_add_bigram_inv [OF inv1 adj1 t1] have inv2: "tok_inv vocab str st2" .
    have sy2: "symbols st2 = s4" using try_add_bigram_symbols [OF t1] by simp
    have adj2: "adjacent (symbols st2) (int l) (sym_next (symbols st2 ! l))"
      using nxl ll unfolding sy2 next_ok_def adjacent_def by auto
    from try_add_bigram_inv [OF inv2 adj2 t2] show ?thesis .
  qed
qed

lemma queue_inv_remove:
  assumes "queue_inv syms q" "b \<in> set q"
  shows "cand_ok syms b \<and> queue_inv syms (remove1 b q)"
proof -
  from assms have "cand_ok syms b"
    by (simp add: queue_inv_cand)
  moreover have "set (remove1 b q) \<subseteq> set q"
    by (rule set_remove1_subset)
  with assms(1) have "queue_inv syms (remove1 b q)"
    by (auto simp: queue_inv_cand)
  ultimately show ?thesis by simp
qed

lemma merge_top_inv:
  assumes inv: "tok_inv vocab str st" and b: "bigram \<in> set (work_queue st)"
    and run: "merge_bigram vocab str (st\<lparr>work_queue := remove1 bigram (work_queue st)\<rparr>) bigram = Inr st'"
  shows "tok_inv vocab str st'"
proof -
  from inv have q: "queue_inv (symbols st) (work_queue st)" by (simp add: tok_inv_def)
  from queue_inv_remove [OF q b]
  have c: "cand_ok (symbols st) bigram"
    and p: "queue_inv (symbols st) (remove1 bigram (work_queue st))" by simp_all
  have inv0: "tok_inv vocab str (st\<lparr>work_queue := remove1 bigram (work_queue st)\<rparr>)"
    using inv p by (simp add: tok_inv_def rev_inv_def)
  from merge_bigram_inv [OF inv0 _ run] c show ?thesis by simp
qed

lemma pq_top_is_top: "q \<noteq> [] \<Longrightarrow> is_top q (pq_top q)"
proof -
  assume ne: "q \<noteq> []"
  then obtain b xs where q: "q = b # xs" by (cases q) auto
  from pq_best_max [of b xs] have "\<forall>c\<in>set q. \<not> comparator (pq_top q) c"
    by (simp add: q pq_top_def)
  with pq_top_in [OF ne] show ?thesis
    by (simp add: is_top_def list_all_iff)
qed

lemma merge_step_top:
  "merge_step vocab str st =
     merge_bigram vocab str (st\<lparr>work_queue := remove1 (pq_top (work_queue st)) (work_queue st)\<rparr>)
       (pq_top (work_queue st))"
  by (simp add: merge_step_def pq_pop_def Let_def)

lemma all_live_next:
  assumes inv: "sym_inv str syms" and live: "all_live syms"
    and i: "1 \<le> i" "i < length syms"
  shows "sym_next (syms ! (i - 1)) = int i"
proof -
  from i have p: "i - 1 < length syms" by simp
  with live have lp: "0 < sym_n (syms ! (i - 1))" and li: "0 < sym_n (syms ! i)"
    using i by (simp_all add: all_live_def)
  from inv p lp have "next_ok str syms (i - 1)" by (simp add: sym_inv_def)
  then consider
    (last) "\<forall>k. i - 1 < k \<and> k < length syms \<longrightarrow> sym_n (syms ! k) = 0"
  | (link) j where "sym_next (syms ! (i - 1)) = int j" "i - 1 < j"
      "\<forall>k. i - 1 < k \<and> k < j \<longrightarrow> sym_n (syms ! k) = 0"
    unfolding next_ok_def by blast
  then show ?thesis
  proof cases
    case last
    with i li show ?thesis by auto
  next
    case link
    have "j = i"
    proof (rule ccontr)
      assume "j \<noteq> i"
      with link(2) i have "i - 1 < i \<and> i < j" by auto
      with link(3) li show False by auto
    qed
    with link(1) show ?thesis by simp
  qed
qed

lemma tokenize_at_inv:
  assumes "tokenize_at vocab str pt st" and ne: "str \<noteq> []"
  shows "tok_inv vocab str st
    \<and> (case pt of Seeding i \<Rightarrow> all_live (symbols st) \<and> 1 \<le> i | _ \<Rightarrow> True)"
  using assms(1)
proof (induction rule: tokenize_at.induct)
  case (at_split syms)
  from split_loop_sym_inv [OF ne at_split] show ?case
    by (simp add: tok_inv_def queue_inv_def rev_inv_def)
next
  case (at_seed i st st')
  then have inv: "tok_inv vocab str st" and live: "all_live (symbols st)" and i: "1 \<le> i"
    by simp_all
  from inv have "sym_inv str (symbols st)" by (simp add: tok_inv_def)
  from all_live_next [OF this live i at_seed.hyps(2)]
  have "sym_next (symbols st ! (i - 1)) = int i" .
  then have adj: "adjacent (symbols st) (int i - 1) (int i)"
    unfolding adjacent_def using i at_seed.hyps(2)
    by (intro disjI2 exI [of _ "i - 1"] exI [of _ i]) (simp add: of_nat_diff)
  from try_add_bigram_inv [OF inv adj at_seed.hyps(3)] try_add_bigram_symbols [OF at_seed.hyps(3)] live
  show ?case by simp
next
  case (at_seeded i st)
  then show ?case by simp
next
  case (at_merge st bigram st')
  then have inv: "tok_inv vocab str st" by simp
  from at_merge.hyps(2) have "bigram \<in> set (work_queue st)" by (simp add: is_top_def)
  from merge_top_inv [OF inv this at_merge.hyps(3)] show ?case by simp
next
  case (at_merged st)
  then show ?case by simp
qed

lemma seed_loop_at:
  "tokenize_at vocab str (Seeding i) st \<Longrightarrow> seed_loop vocab str st i = Inr st' \<Longrightarrow>
   tokenize_at vocab str Merging st'"
proof (induction vocab str st i rule: seed_loop.induct)
  case (1 vocab str st i)
  show ?case
  proof (cases "i < length (symbols st)")
    case False
    with "1.prems"(2) have "st' = st" by (subst (asm) seed_loop.simps) simp
    with "1.prems"(1) False show ?thesis by (auto intro: at_seeded)
  next
    case True
    with "1.prems"(2) obtain st1 where
      t: "try_add_bigram vocab str st (int i - 1) (int i) = Inr st1"
      and r: "seed_loop vocab str st1 (i + 1) = Inr st'"
      by (subst (asm) seed_loop.simps) (auto split: sum.splits)
    have "tokenize_at vocab str (Seeding (i + 1)) st1"
      using "1.prems"(1) True t by (rule at_seed)
    from "1.IH" [OF True t this r] show ?thesis .
  qed
qed

lemma at_merge_step:
  assumes "tokenize_at vocab str Merging st" "work_queue st \<noteq> []"
    "merge_step vocab str st = Inr st'"
  shows "tokenize_at vocab str Merging st'"
  using assms(1) pq_top_is_top [OF assms(2)] assms(3) [unfolded merge_step_top]
  by (rule at_merge)

lemma merge_loop_at:
  "tokenize_at vocab str Merging st \<Longrightarrow> merge_loop vocab str st = Inr st' \<Longrightarrow>
   tokenize_at vocab str Resegmenting st'"
proof (induction vocab str st rule: merge_loop.induct)
  case (1 vocab str st)
  show ?case
  proof (cases "work_queue st \<noteq> []")
    case False
    with "1.prems"(2) have "st' = st" by (subst (asm) merge_loop.simps) simp
    with "1.prems"(1) False show ?thesis by (auto intro: at_merged)
  next
    case True
    with "1.prems"(2) obtain st1 where
      t: "merge_step vocab str st = Inr st1"
      and r: "merge_loop vocab str st1 = Inr st'"
      by (subst (asm) merge_loop.simps) (auto split: sum.splits)
    have "tokenize_at vocab str Merging st1"
      using "1.prems"(1) True t by (rule at_merge_step)
    from "1.IH" [OF True t this r] show ?thesis .
  qed
qed

text \<open>
  Claim C2. At every point of \<open>tokenize\<close> on a non-empty text (after the first loop, after
  each step of the second and third loops, and when the third loop has ended) the live
  symbols met by following \<open>next\<close> from symbol 0 cover the text exactly once, in order,
  without gap or overlap; and the states that the three loops compute are such points.
\<close>

theorem live_spans_partition_text:
  "(str \<noteq> [] \<and> tokenize_at vocab str pt st \<longrightarrow> partition_ok str (symbols st))
   \<and> (str \<noteq> [] \<and> split_loop str 0 0 [] = Inr syms
        \<and> seed_loop vocab str \<lparr>symbols = syms, work_queue = [], rev_merge = Map.empty\<rparr> 1 = Inr st1
        \<and> merge_loop vocab str st1 = Inr st2
      \<longrightarrow> tokenize_at vocab str Resegmenting st2
          \<and> partition_ok str syms \<and> partition_ok str (symbols st1)
          \<and> partition_ok str (symbols st2))"
proof (intro conjI impI)
  assume "str \<noteq> [] \<and> tokenize_at vocab str pt st"
  then have "tok_inv vocab str st" using tokenize_at_inv by blast
  then show "partition_ok str (symbols st)"
    by (simp add: tok_inv_def sym_inv_partition_ok)
next
  assume a: "str \<noteq> [] \<and> split_loop str 0 0 [] = Inr syms
        \<and> seed_loop vocab str \<lparr>symbols = syms, work_queue = [], rev_merge = Map.empty\<rparr> 1 = Inr st1
        \<and> merge_loop vocab str st1 = Inr st2"
  let ?st0 = "\<lparr>symbols = syms, work_queue = [], rev_merge = Map.empty\<rparr>"
  from a have sp: "split_loop str 0 0 [] = Inr syms"
    and sd: "seed_loop vocab str ?st0 1 = Inr st1"
    and mg: "merge_loop vocab str st1 = Inr st2"
    by blast+
  from sp have 0: "tokenize_at vocab str (Seeding 1) ?st0" by (rule at_split)
  from 0 sd have 1: "tokenize_at vocab str Merging st1" by (rule seed_loop_at)
  from 1 mg show 2: "tokenize_at vocab str Resegmenting st2" by (rule merge_loop_at)
  from a have ne: "str \<noteq> []" by simp
  from tokenize_at_inv [OF 0 ne] show "partition_ok str syms"
    by (simp add: tok_inv_def sym_inv_partition_ok)
  from tokenize_at_inv [OF 1 ne] show "partition_ok str (symbols st1)"
    by (simp add: tok_inv_def sym_inv_partition_ok)
  from tokenize_at_inv [OF 2 ne] show "partition_ok str (symbols st2)"
    by (simp add: tok_inv_def sym_inv_partition_ok)
qed

lemma run_ab:
  "split_loop ''ab'' 0 0 [] = Inr [one_byte_span 2 0, one_byte_span 2 1]
   \<and> seed_loop vocab_ab ''ab''
        \<lparr>symbols = [one_byte_span 2 0, one_byte_span 2 1], work_queue = [], rev_merge = Map.empty\<rparr> 1
       = Inr st_ab_seeded
   \<and> merge_loop vocab_ab ''ab'' st_ab_seeded = Inr st_ab_merged"
  by (simp add: split_ab tok_unfold vocab_ab_def mk_vocab_def st_ab_seeded_def st_ab_merged_def)

theorem live_spans_partition_text_witness:
  "tokenize_at vocab_ab ''ab'' Resegmenting st_ab_merged
   \<and> partition_ok ''ab'' (symbols st_ab_seeded)
   \<and> partition_ok ''ab'' (symbols st_ab_merged)"
proof -
  have ne: "''ab'' \<noteq> []" by simp
  from live_spans_partition_text [of "''ab''" vocab_ab Resegmenting st_ab_merged
      "[one_byte_span 2 0, one_byte_span 2 1]" st_ab_seeded st_ab_merged] run_ab ne
  have a: "tokenize_at vocab_ab ''ab'' Resegmenting st_ab_merged"
    and b: "partition_ok ''ab'' (symbols st_ab_seeded)"
    by blast+
  from live_spans_partition_text [of "''ab''" vocab_ab Resegmenting st_ab_merged] a ne
  have "partition_ok ''ab'' (symbols st_ab_merged)" by blast
  with a b show ?thesis by simp
qed

section \<open>Stale candidates\<close>

text \<open>
  Claim C8. At the head of the merge loop, a candidate that can be popped (a top of the
  queue, whatever the heap order) names two symbols of the table. When one of them is
  dead or their lengths do not add up to the recorded size, the step is not an error and
  changes nothing but the queue, which loses the candidate: the span table with its links
  and the merge history stay as they are. A step that changes the table or the history
  has passed the check. The candidate that \<open>merge_step\<close> pops is such a top.
\<close>

theorem stale_candidate_discarded:
  assumes ne: "str \<noteq> []" and at: "tokenize_at vocab str Merging st"
    and top: "is_top (work_queue st) bigram"
  shows "0 \<le> bg_left bigram \<and> bg_left bigram < int (length (symbols st))
    \<and> 0 \<le> bg_right bigram \<and> bg_right bigram < int (length (symbols st))
    \<and> (stale st bigram \<longrightarrow>
          merge_bigram vocab str (st\<lparr>work_queue := remove1 bigram (work_queue st)\<rparr>) bigram
            = Inr (st\<lparr>work_queue := remove1 bigram (work_queue st)\<rparr>))
    \<and> (\<forall>st'. merge_bigram vocab str (st\<lparr>work_queue := remove1 bigram (work_queue st)\<rparr>) bigram
                 = Inr st'
            \<and> (symbols st' \<noteq> symbols st \<or> rev_merge st' \<noteq> rev_merge st)
          \<longrightarrow> \<not> stale st bigram)
    \<and> is_top (work_queue st) (pq_top (work_queue st))
    \<and> merge_step vocab str st
        = merge_bigram vocab str
            (st\<lparr>work_queue := remove1 (pq_top (work_queue st)) (work_queue st)\<rparr>)
            (pq_top (work_queue st))"
proof -
  let ?st0 = "st\<lparr>work_queue := remove1 bigram (work_queue st)\<rparr>"
  from top have mem: "bigram \<in> set (work_queue st)" by (simp add: is_top_def)
  then have q: "work_queue st \<noteq> []" by auto
  from tokenize_at_inv [OF at ne] have "queue_inv (symbols st) (work_queue st)"
    by (simp add: tok_inv_def)
  from queue_inv_remove [OF this mem] have "cand_ok (symbols st) bigram" by simp
  then obtain l r where lr: "bg_left bigram = int l" "bg_right bigram = int r"
    "l < length (symbols st)" "r < length (symbols st)"
    unfolding cand_ok_def by blast
  have st: "merge_bigram vocab str ?st0 bigram = Inr ?st0" if "stale st bigram"
  proof -
    from that lr have "sym_n (symbols ?st0 ! l) = 0 \<or> sym_n (symbols ?st0 ! r) = 0
         \<or> sym_n (symbols ?st0 ! l) + sym_n (symbols ?st0 ! r) \<noteq> bg_size bigram"
      by (simp add: stale_def)
    from merge_bigram_stale [OF lr(1,2) _ _ this, of vocab str] lr(3,4)
    show ?thesis by simp
  qed
  have ns: "\<not> stale st bigram"
    if "merge_bigram vocab str ?st0 bigram = Inr st'
        \<and> (symbols st' \<noteq> symbols st \<or> rev_merge st' \<noteq> rev_merge st)"
    for st'
  proof
    assume "stale st bigram"
    from st [OF this] that show False by auto
  qed
  have rng: "0 \<le> bg_left bigram \<and> bg_left bigram < int (length (symbols st))
    \<and> 0 \<le> bg_right bigram \<and> bg_right bigram < int (length (symbols st))"
    using lr by simp
  from rng st ns pq_top_is_top [OF q] merge_step_top [of vocab str st] show ?thesis by blast
qed

lemma split_abc: "split_loop ''abc'' 0 0 [] = Inr (symbols st_abc)"
  by code_simp

lemma at_abc: "tokenize_at vocab_abc ''abc'' Merging st_abc"
proof -
  have "seed_loop vocab_abc ''abc''
          \<lparr>symbols = symbols st_abc, work_queue = [], rev_merge = Map.empty\<rparr> 1 = Inr st_abc"
    by (simp add: tok_unfold vocab_abc_def mk_vocab_def st_abc_def)
  with at_split [OF split_abc] show ?thesis by (rule seed_loop_at)
qed

lemma merge_step_abc: "merge_step vocab_abc ''abc'' st_abc = Inr st_abc_merged"
  by (simp add: tok_unfold vocab_abc_def mk_vocab_def st_abc_def st_abc_merged_def comparator_def)

lemma at_abc_merged: "tokenize_at vocab_abc ''abc'' Merging st_abc_merged"
  using at_abc _ merge_step_abc by (rule at_merge_step) (simp add: st_abc_def)

theorem stale_candidate_discarded_witness:
  "stale st_abc_merged (pq_top (work_queue st_abc_merged))
   \<and> merge_step vocab_abc ''abc'' st_abc_merged = Inr (st_abc_merged\<lparr>work_queue := []\<rparr>)
   \<and> \<not> stale st_abc (pq_top (work_queue st_abc))"
proof -
  have ne: "''abc'' \<noteq> []" by simp
  have q1: "work_queue st_abc \<noteq> []" by (simp add: st_abc_def)
  have q2: "work_queue st_abc_merged \<noteq> []" by (simp add: st_abc_merged_def)
  have s: "stale st_abc_merged (pq_top (work_queue st_abc_merged))"
    by (simp add: stale_def st_abc_merged_def pq_top_def)
  have p: "remove1 (pq_top (work_queue st_abc_merged)) (work_queue st_abc_merged) = []"
    by (simp add: st_abc_merged_def pq_top_def)
  have c: "symbols st_abc_merged \<noteq> symbols st_abc"
    by (simp add: st_abc_merged_def st_abc_def one_byte_span_def)
  from stale_candidate_discarded [OF ne at_abc_merged pq_top_is_top [OF q2]] s p
  have a: "merge_step vocab_abc ''abc'' st_abc_merged = Inr (st_abc_merged\<lparr>work_queue := []\<rparr>)"
    by simp
  from stale_candidate_discarded [OF ne at_abc pq_top_is_top [OF q1]]
    merge_step_abc c
  have b: "\<not> stale st_abc (pq_top (work_queue st_abc))" by metis
  from s a b show ?thesis by simp
qed

section \<open>Resegmentation\<close>

lemma read_bytes_span:
  assumes "offs + len \<le> length str"
  shows "read_bytes str offs len = Inr (take len (drop offs str))"
proof -
  have "len \<le> length (drop offs str)" using assms by simp
  then have "take len (drop offs (str @ [CHR 0x00])) = take len (drop offs str)"
    using assms by simp
  with assms show ?thesis by (simp add: read_bytes_def)
qed

lemma byte_fallback_ids:
  "byte_fallback vocab bs out = Inr out' \<Longrightarrow>
   out' = out @ map (\<lambda>c. the (token_to_id vocab (snprintf_byte (of_char c)))) bs
   \<and> (\<forall>c\<in>set bs. token_to_id vocab (snprintf_byte (of_char c)) \<noteq> None)"
proof (induction bs arbitrary: out)
  case Nil
  then show ?case by simp
next
  case (Cons c cs)
  have len: "length (snprintf_byte (of_char c)) = 6" by (simp add: snprintf_byte_def)
  from Cons.prems obtain t where t: "token_to_id vocab (snprintf_byte (of_char c)) = Some t"
    and r: "byte_fallback vocab cs (out @ [t]) = Inr out'"
    by (auto simp: llama_byte_to_token_def GGML_ASSERT_def Let_def len
        split: sum.splits option.splits if_splits)
  from Cons.IH [OF r] t show ?case by simp
qed

lemma rev_inv_None:
  "rev_inv vocab st \<Longrightarrow> token_to_id vocab t = None \<Longrightarrow> rev_merge st t = None"
  unfolding rev_inv_def by blast

lemma resegment_live:
  assumes inv: "tok_inv vocab str st" and i: "i < length (symbols st)" "0 < sym_n (symbols st ! i)"
  shows "resegment vocab str st (symbols st ! i) out =
     Some (case token_to_id vocab (span_text str (symbols st ! i)) of
             Some token \<Rightarrow> Inr (out @ [token])
           | None \<Rightarrow> byte_fallback vocab (span_text str (symbols st ! i)) out)"
proof -
  let ?s = "symbols st ! i"
  from inv i have "sym_text ?s + sym_n ?s \<le> length str"
    by (simp add: tok_inv_def sym_inv_def)
  then have rd: "read_bytes str (sym_text ?s) (sym_n ?s) = Inr (span_text str ?s)"
    by (simp add: read_bytes_span span_text_def)
  show ?thesis
  proof (cases "token_to_id vocab (span_text str ?s)")
    case None
    from inv have "rev_inv vocab st" by (simp add: tok_inv_def)
    from rev_inv_None [OF this None] have "rev_merge st (span_text str ?s) = None" .
    with None rd show ?thesis by (subst resegment.simps) simp
  next
    case (Some t)
    with rd show ?thesis by (subst resegment.simps) simp
  qed
qed

lemma resegment_prefix:
  assumes inv: "tok_inv vocab str st" and i: "i < length (symbols st)" "0 < sym_n (symbols st ! i)"
  shows "\<exists>res. resegment vocab str st (symbols st ! i) out = Some res
           \<and> (\<forall>out'. res = Inr out' \<longrightarrow> (\<exists>rest. out' = out @ rest))"
proof (cases "token_to_id vocab (span_text str (symbols st ! i))")
  case None
  then show ?thesis
    using resegment_live [OF assms, of out] byte_fallback_ids [of vocab "span_text str (symbols st ! i)" out]
    by auto
next
  case (Some t)
  then show ?thesis using resegment_live [OF assms, of out] by simp
qed

lemma resegment_loop_done: "resegment_loop vocab str st (-1) out = Some (Inr out)"
  by (subst resegment_loop.simps) simp

lemma resegment_loop_total:
  assumes inv: "tok_inv vocab str st"
  shows "i < length (symbols st) \<Longrightarrow> 0 < sym_n (symbols st ! i) \<Longrightarrow>
    \<exists>res. resegment_loop vocab str st (int i) out = Some res
       \<and> (\<forall>out'. res = Inr out' \<longrightarrow> (\<exists>rest. out' = out @ rest))"
proof (induction "length (symbols st) - i" arbitrary: i out rule: less_induct)
  case less
  let ?s = "symbols st ! i"
  have sa: "symbol_at st (int i) = Inr ?s" using less.prems by (simp add: symbol_at_def)
  from resegment_prefix [OF inv less.prems, of out] obtain res where
    res: "resegment vocab str st ?s out = Some res"
      "\<forall>out'. res = Inr out' \<longrightarrow> (\<exists>rest. out' = out @ rest)"
    by blast
  have unf: "resegment_loop vocab str st (int i) out =
     (case res of Inl e \<Rightarrow> Some (Inl e)
      | Inr output1 \<Rightarrow> resegment_loop vocab str st (sym_next ?s) output1)"
    by (subst resegment_loop.simps) (simp add: sa res(1))
  show ?case
  proof (cases res)
    case (Inl e)
    then show ?thesis by (simp add: unf)
  next
    case (Inr out1)
    with res(2) obtain rest1 where o1: "out1 = out @ rest1" by blast
    from inv less.prems have "next_ok str (symbols st) i"
      by (simp add: tok_inv_def sym_inv_def)
    then consider (last) "sym_next ?s = -1"
      | (link) j where "sym_next ?s = int j" "i < j" "j < length (symbols st)"
          "0 < sym_n (symbols st ! j)"
      unfolding next_ok_def by blast
    then show ?thesis
    proof cases
      case last
      then show ?thesis using Inr o1 by (simp add: unf resegment_loop_done)
    next
      case link
      have dec: "length (symbols st) - j < length (symbols st) - i" using link by arith
      from less.hyps [OF dec link(3,4), of out1] obtain res2 where
        r2: "resegment_loop vocab str st (int j) out1 = Some res2"
          "\<forall>out'. res2 = Inr out' \<longrightarrow> (\<exists>rest. out' = out1 @ rest)"
        by blast
      have "\<exists>rest. out' = out @ rest" if "res2 = Inr out'" for out'
        using r2(2) that o1 by auto
      then show ?thesis using Inr link(1) r2(1) by (simp add: unf)
    qed
  qed
qed


lemma at_byte: "tokenize_at vocab_bytes [CHR 0x80] Resegmenting st_byte"
proof -
  let ?st0 = "\<lparr>symbols = symbols st_byte, work_queue = [], rev_merge = Map.empty\<rparr>"
  have sp: "split_loop [CHR 0x80] 0 0 [] = Inr (symbols st_byte)" by code_simp
  have sd: "seed_loop vocab_bytes [CHR 0x80] ?st0 1 = Inr st_byte"
    by (simp add: tok_unfold st_byte_def)
  have mg: "merge_loop vocab_bytes [CHR 0x80] st_byte = Inr st_byte"
    by (simp add: tok_unfold st_byte_def)
  from at_split [OF sp] sd have "tokenize_at vocab_bytes [CHR 0x80] Merging st_byte"
    by (rule seed_loop_at)
  then show ?thesis using mg by (rule merge_loop_at)
qed

text \<open>
  Claim C7. At every point of \<open>tokenize\<close> on a non-empty text, and so when the merge loop
  has ended, \<open>resegment\<close> returns for every live symbol: with the id of the symbol's text
  when that is a vocabulary entry, and otherwise with the result of the byte loop, which
  on success has added one byte token id for each byte. No recursive call is made, since
  a text that is no vocabulary entry has no entry in the merge history; and the last loop
  of \<open>tokenize\<close> returns.
\<close>

theorem resegment_terminates:
  assumes "str \<noteq> []" and "tokenize_at vocab str pt st"
    and "i < length (symbols st)" and "0 < sym_n (symbols st ! i)"
  shows "resegment vocab str st (symbols st ! i) out =
           Some (case token_to_id vocab (span_text str (symbols st ! i)) of
                   Some token \<Rightarrow> Inr (out @ [token])
                 | None \<Rightarrow> byte_fallback vocab (span_text str (symbols st ! i)) out)
    \<and> (token_to_id vocab (span_text str (symbols st ! i)) = None \<longrightarrow>
          rev_merge st (span_text str (symbols st ! i)) = None)
    \<and> (\<forall>out'. byte_fallback vocab (span_text str (symbols st ! i)) out = Inr out' \<longrightarrow>
          out' = out @ map (\<lambda>c. the (token_to_id vocab (snprintf_byte (of_char c))))
                       (span_text str (symbols st ! i)))
    \<and> (\<exists>res. resegment_loop vocab str st 0 out = Some res)"
proof -
  from tokenize_at_inv [OF assms(2,1)] have inv: "tok_inv vocab str st" by simp
  then have z: "0 < length (symbols st)" "0 < sym_n (symbols st ! 0)"
    by (simp_all add: tok_inv_def sym_inv_def)
  have a: "token_to_id vocab (span_text str (symbols st ! i)) = None \<longrightarrow>
          rev_merge st (span_text str (symbols st ! i)) = None"
  proof
    assume n: "token_to_id vocab (span_text str (symbols st ! i)) = None"
    from inv have "rev_inv vocab st" by (simp add: tok_inv_def)
    from rev_inv_None [OF this n] show "rev_merge st (span_text str (symbols st ! i)) = None" .
  qed
  have b: "\<forall>out'. byte_fallback vocab (span_text str (symbols st ! i)) out = Inr out' \<longrightarrow>
          out' = out @ map (\<lambda>c. the (token_to_id vocab (snprintf_byte (of_char c))))
                       (span_text str (symbols st ! i))"
    using byte_fallback_ids by blast
  have c: "\<exists>res. resegment_loop vocab str st 0 out = Some res"
    using resegment_loop_total [OF inv z, of out] by auto
  from resegment_live [OF inv assms(3,4), of out] a b c show ?thesis by blast
qed

theorem resegment_terminates_witness:
  "resegment vocab_bytes [CHR 0x80] st_byte (symbols st_byte ! 0) [] = Some (Inr [3])
   \<and> rev_merge st_byte [CHR 0x80] = None
   \<and> (\<exists>res. resegment_loop vocab_bytes [CHR 0x80] st_byte 0 [] = Some res)"
proof -
  have ne: "[CHR 0x80] \<noteq> []" by simp
  have i: "0 < length (symbols st_byte)" "0 < sym_n (symbols st_byte ! 0)"
    by (simp_all add: st_byte_def)
  have sp: "span_text [CHR 0x80] (symbols st_byte ! 0) = [CHR 0x80]"
    by (simp add: span_text_def st_byte_def)
  have t: "token_to_id vocab_bytes [CHR 0x80] = None" by code_simp
  have bf: "byte_fallback vocab_bytes [CHR 0x80] [] = Inr [3]" by code_simp
  from resegment_terminates [OF ne at_byte i, of "[]"] sp t bf
  show ?thesis by simp
qed


section \<open>The beginning-of-sequence id\<close>




end
